theory Spec2Isabelle
  imports Main "HOL-Library.Word" "HOL-Library.Multiset"
begin

section \<open>Worklists of the Galois runtime (include/Galois/Runtime/WorkList.h)\<close>

text \<open>
  The header defines four families of worklists: the STL adaptors (LIFO, FIFO, PriQueue),
  ChunkedFIFO, OrderedByIntegerMetric and CacheByIntegerMetric.  Every member function is
  embedded as a function from the object's state to its result and new state.  A call is
  one atomic step of the calling worker: the adaptors run between \<open>lock()\<close> and
  \<open>unlock()\<close>, and the per-worker records are touched by their owner only.  A worker is
  identified by a natural number.
\<close>

subsection \<open>The sequential containers the adaptor wraps\<close>

text \<open>
  \<open>STLAdaptor<MQ, concurrent>\<close> uses four operations of its container \<open>MQ\<close>:
  \<open>push\<close>, \<open>pop\<close>, \<open>top\<close> and \<open>empty\<close>.  The containers are those of the C++ standard
  library; each is modelled by the list of its elements.
\<close>

record ('a, 'q) MQ =
  mq_push :: "'a \<Rightarrow> 'q \<Rightarrow> 'q"
  mq_pop :: "'q \<Rightarrow> 'q"
  mq_top :: "'q \<Rightarrow> 'a"
  mq_empty :: "'q \<Rightarrow> bool"

text \<open>\<open>std::stack<T>\<close>: the head of the list is the top of the stack.\<close>

definition std_stack :: "('a, 'a list) MQ" where
  "std_stack = \<lparr>mq_push = (\<lambda>val q. val # q), mq_pop = tl, mq_top = hd,
                 mq_empty = (\<lambda>q. q = [])\<rparr>"

text \<open>
  \<open>stdqueueFix<std::queue<T> >\<close>: the head of the list is the front of the queue, a push
  appends at the back, and \<open>top()\<close> is \<open>Q::front()\<close>.
\<close>

definition stdqueueFix :: "('a, 'a list) MQ" where
  "stdqueueFix = \<lparr>mq_push = (\<lambda>val q. q @ [val]), mq_pop = tl, mq_top = hd,
                   mq_empty = (\<lambda>q. q = [])\<rparr>"

text \<open>
  \<open>std::priority_queue<T, std::vector<T>, Compare>\<close>: \<open>top()\<close> is an element that
  \<open>Compare\<close> puts below no other element, and \<open>pop()\<close> removes it.  The list holds
  the elements in the order of their pushes.  Which of several greatest elements is on top
  is left open by the C++ standard; the model takes the one pushed first, as a heap built
  by pushes alone has it, and after a \<open>pop\<close> the library may have another of them on
  top.  No property below depends on that choice.
\<close>

definition pq_top :: "('a \<Rightarrow> 'a \<Rightarrow> bool) \<Rightarrow> 'a list \<Rightarrow> 'a" where
  "pq_top cmp q = foldl (\<lambda>m x. if cmp m x then x else m) (hd q) (tl q)"

definition std_priority_queue :: "('a \<Rightarrow> 'a \<Rightarrow> bool) \<Rightarrow> ('a, 'a list) MQ" where
  "std_priority_queue cmp =
     \<lparr>mq_push = (\<lambda>val q. q @ [val]), mq_pop = (\<lambda>q. remove1 (pq_top cmp q) q),
      mq_top = pq_top cmp, mq_empty = (\<lambda>q. q = [])\<rparr>"

subsection \<open>STLAdaptor\<close>

text \<open>
  Modelled from the spec: \<open>SimpleLock\<close> (Galois/Runtime/SimpleLock.h) is not among the
  sources.  \<open>lock()\<close> and \<open>unlock()\<close> give mutual exclusion, or nothing in the
  non-concurrent specialization: what an adaptor does between them is one step.

  \<open>dflt\<close> stands for the value-initialised \<open>value_type()\<close> that \<open>pop\<close> returns
  with \<open>false\<close>.
\<close>

definition STLAdaptor_push :: "('a, 'q) MQ \<Rightarrow> 'a \<Rightarrow> 'q \<Rightarrow> 'q" where
  "STLAdaptor_push mq val wl = mq_push mq val wl"

definition STLAdaptor_pop :: "('a, 'q) MQ \<Rightarrow> 'a \<Rightarrow> 'q \<Rightarrow> (bool \<times> 'a) \<times> 'q" where
  "STLAdaptor_pop mq dflt wl =
     (if mq_empty mq wl then ((False, dflt), wl)
      else (let retval = mq_top mq wl in ((True, retval), mq_pop mq wl)))"

definition STLAdaptor_empty :: "('a, 'q) MQ \<Rightarrow> 'q \<Rightarrow> bool" where
  "STLAdaptor_empty mq wl = mq_empty mq wl"

definition STLAdaptor_aborted :: "('a, 'q) MQ \<Rightarrow> 'a \<Rightarrow> 'q \<Rightarrow> 'q" where
  "STLAdaptor_aborted mq val wl = STLAdaptor_push mq val wl"

fun STLAdaptor_fill_initial :: "('a, 'q) MQ \<Rightarrow> 'a list \<Rightarrow> 'q \<Rightarrow> 'q" where
  "STLAdaptor_fill_initial mq [] wl = wl"
| "STLAdaptor_fill_initial mq (x # xs) wl = STLAdaptor_fill_initial mq xs (mq_push mq x wl)"

text \<open>The three instantiations \<open>LIFO\<close>, \<open>FIFO\<close> and \<open>PriQueue\<close>.\<close>

definition LIFO_push :: "'a \<Rightarrow> 'a list \<Rightarrow> 'a list" where
  "LIFO_push = STLAdaptor_push std_stack"

definition LIFO_pop :: "'a \<Rightarrow> 'a list \<Rightarrow> (bool \<times> 'a) \<times> 'a list" where
  "LIFO_pop = STLAdaptor_pop std_stack"

definition LIFO_empty :: "'a list \<Rightarrow> bool" where
  "LIFO_empty = STLAdaptor_empty std_stack"

definition FIFO_push :: "'a \<Rightarrow> 'a list \<Rightarrow> 'a list" where
  "FIFO_push = STLAdaptor_push stdqueueFix"

definition FIFO_pop :: "'a \<Rightarrow> 'a list \<Rightarrow> (bool \<times> 'a) \<times> 'a list" where
  "FIFO_pop = STLAdaptor_pop stdqueueFix"

definition FIFO_empty :: "'a list \<Rightarrow> bool" where
  "FIFO_empty = STLAdaptor_empty stdqueueFix"

definition PriQueue_push :: "('a \<Rightarrow> 'a \<Rightarrow> bool) \<Rightarrow> 'a \<Rightarrow> 'a list \<Rightarrow> 'a list" where
  "PriQueue_push cmp = STLAdaptor_push (std_priority_queue cmp)"

definition PriQueue_pop ::
  "('a \<Rightarrow> 'a \<Rightarrow> bool) \<Rightarrow> 'a \<Rightarrow> 'a list \<Rightarrow> (bool \<times> 'a) \<times> 'a list" where
  "PriQueue_pop cmp = STLAdaptor_pop (std_priority_queue cmp)"

definition PriQueue_empty :: "('a \<Rightarrow> 'a \<Rightarrow> bool) \<Rightarrow> 'a list \<Rightarrow> bool" where
  "PriQueue_empty cmp = STLAdaptor_empty (std_priority_queue cmp)"

subsection \<open>ChunkedFIFO\<close>

text \<open>
  A \<open>Chunk\<close> is \<open>LIFO<T>::SingleThreadTy\<close>, a stack of items.  A \<open>Chunk*\<close> is either
  null (\<open>None\<close>) or the chunk it points to: the class hands every chunk from one slot to the
  next (\<open>new Chunk\<close> into \<open>next\<close>, \<open>next\<close> into \<open>Items\<close> or \<open>curr\<close>, \<open>Items\<close>
  into \<open>curr\<close>, \<open>delete\<close> from \<open>curr\<close>) and clears or overwrites the slot it came
  from, so a chunk is never reached through two pointers.  \<open>Items\<close> is the
  \<open>FIFO<Chunk*>\<close> of published chunks, whose \<open>value_type()\<close> is the null pointer.
\<close>

type_synonym 'a Chunk = "'a list"

record 'a ProcRec =
  next' :: "'a Chunk option"
  nextSize :: int
  curr :: "'a Chunk option"

text \<open>
  \<open>nextSize\<close> and \<open>ChunkSize\<close> are \<open>int\<close> in the source.  The only arithmetic on
  them is \<open>nextSize++\<close>, which for a positive \<open>ChunkSize\<close> runs at values below
  \<open>ChunkSize\<close> only (lemma \<open>push_next_no_overflow\<close> below), so it cannot overflow and
  unbounded integers model it exactly.

  The constructor \<open>ProcRec() : next(0), nextSize(0), curr(0)\<close>.
\<close>

definition ProcRec_new :: "'a ProcRec" where
  "ProcRec_new = \<lparr>next' = None, nextSize = 0, curr = None\<rparr>"

text \<open>The template parameters \<open>ChunkSize\<close> (default 64) and \<open>pushToLocal\<close> (default true).\<close>

record ChunkedFIFO_params =
  ChunkSize :: int
  pushToLocal :: bool

definition default_params :: ChunkedFIFO_params where
  "default_params = \<lparr>ChunkSize = 64, pushToLocal = True\<rparr>"

text \<open>
  Modelled from the spec: \<open>CPUSpaced\<close> (per-worker storage) is not among the sources.
  \<open>get()\<close> returns the calling worker's record, created by the default constructor on
  first touch, and no two workers see the same record: a function from workers to records.
\<close>

record 'a ChunkedFIFO =
  Items :: "'a Chunk option list"
  data :: "nat \<Rightarrow> 'a ProcRec"

definition ChunkedFIFO_new :: "'a ChunkedFIFO" where
  "ChunkedFIFO_new = \<lparr>Items = [], data = (\<lambda>w. ProcRec_new)\<rparr>"

text \<open>
  The private members take the record \<open>n\<close> by reference and reach \<open>Items\<close> through
  \<open>this\<close>: they transform the pair of both.  In \<open>push_next\<close> the two \<open>if\<close>s leave
  \<open>n.next\<close> non-null, and \<open>n.next->push(val)\<close> pushes onto the chunk it points to.
\<close>

definition push_next ::
  "int \<Rightarrow> 'a \<Rightarrow> 'a Chunk option list \<times> 'a ProcRec \<Rightarrow> 'a Chunk option list \<times> 'a ProcRec" where
  "push_next CS val st =
     (let (items, n) = st;
          n1 = (if next' n = None then n\<lparr>next' := Some [], nextSize := 0\<rparr> else n);
          (items2, n2) =
            (if nextSize n1 = CS
             then (FIFO_push (next' n1) items, n1\<lparr>next' := Some [], nextSize := 0\<rparr>)
             else (items, n1))
      in (items2, n2\<lparr>next' := map_option (LIFO_push val) (next' n2),
                     nextSize := nextSize n2 + 1\<rparr>))"

definition fill_curr ::
  "'a Chunk option list \<times> 'a ProcRec \<Rightarrow> 'a Chunk option list \<times> 'a ProcRec" where
  "fill_curr st =
     (let (items, n) = st;
          (r, items') = FIFO_pop None items
      in if fst r then (items', n\<lparr>curr := snd r\<rparr>)
         else (items', n\<lparr>curr := next' n, next' := None\<rparr>))"

definition push_local ::
  "int \<Rightarrow> 'a \<Rightarrow> 'a Chunk option list \<times> 'a ProcRec \<Rightarrow> 'a Chunk option list \<times> 'a ProcRec" where
  "push_local CS val st =
     (let (items, n) = (if curr (snd st) = None then fill_curr st else st)
      in case curr n of
           Some c \<Rightarrow> (items, n\<lparr>curr := Some (LIFO_push val c)\<rparr>)
         | None \<Rightarrow> push_next CS val (items, n))"

text \<open>
  \<open>pop\<close> calls itself after deleting an empty current chunk.  The number of chunks the
  worker can still reach (the non-null entries of \<open>Items\<close>, its \<open>next\<close> and its
  \<open>curr\<close>) decreases with every such call.
\<close>

definition chunks_reachable :: "'a Chunk option list \<times> 'a ProcRec \<Rightarrow> nat" where
  "chunks_reachable st =
     length (filter (\<lambda>c. c \<noteq> None) (fst st))
       + (if next' (snd st) = None then 0 else 1) + (if curr (snd st) = None then 0 else 1)"

function pop_rec ::
  "'a \<Rightarrow> 'a Chunk option list \<times> 'a ProcRec
     \<Rightarrow> (bool \<times> 'a) \<times> ('a Chunk option list \<times> 'a ProcRec)" where
  "pop_rec dflt st =
     (let (items, n) = (if curr (snd st) = None then fill_curr st else st)
      in case curr n of
           Some c \<Rightarrow>
             if LIFO_empty c then pop_rec dflt (items, n\<lparr>curr := None\<rparr>)
             else (let (r, c') = LIFO_pop dflt c in (r, (items, n\<lparr>curr := Some c'\<rparr>)))
         | None \<Rightarrow> ((False, dflt), (items, n)))"
  by pat_completeness auto
termination
proof (relation "measure (\<lambda>(dflt, st). chunks_reachable st)")
  show "wf (measure (\<lambda>(dflt, st). chunks_reachable st))" by simp
next
  fix dflt :: 'a and st :: "'a Chunk option list \<times> 'a ProcRec"
  fix x items n c
  assume x: "x = (if curr (snd st) = None then fill_curr st else st)"
    and xp: "(items, n) = x" and c: "curr n = Some c"
  have "chunks_reachable (items, n\<lparr>curr := None\<rparr>) < chunks_reachable st"
  proof (cases "curr (snd st) = None")
    case False
    with x xp have "st = (items, n)" by simp
    with c show ?thesis by (simp add: chunks_reachable_def)
  next
    case True
    with x xp have f: "fill_curr st = (items, n)" by simp
    obtain its m where st: "st = (its, m)" by (cases st)
    show ?thesis
    proof (cases its)
      case Nil
      with f st c True show ?thesis
        by (auto simp: fill_curr_def FIFO_pop_def STLAdaptor_pop_def stdqueueFix_def
            chunks_reachable_def)
    next
      case (Cons p ps)
      with f st c True show ?thesis
        by (auto simp: fill_curr_def FIFO_pop_def STLAdaptor_pop_def stdqueueFix_def
            chunks_reachable_def Let_def)
    qed
  qed
  then show "((dflt, items, n\<lparr>curr := None\<rparr>), dflt, st) \<in> measure (\<lambda>(dflt, st). chunks_reachable st)"
    by simp
qed

text \<open>The public members, called by worker \<open>w\<close>; \<open>data.get()\<close> is \<open>data s w\<close>.\<close>

definition ChunkedFIFO_push ::
  "ChunkedFIFO_params \<Rightarrow> nat \<Rightarrow> 'a \<Rightarrow> 'a ChunkedFIFO \<Rightarrow> 'a ChunkedFIFO" where
  "ChunkedFIFO_push P w val s =
     (let (items, n) = (if pushToLocal P then push_local (ChunkSize P) val (Items s, data s w)
                        else push_next (ChunkSize P) val (Items s, data s w))
      in \<lparr>Items = items, data = (data s)(w := n)\<rparr>)"

definition ChunkedFIFO_pop ::
  "'a \<Rightarrow> nat \<Rightarrow> 'a ChunkedFIFO \<Rightarrow> (bool \<times> 'a) \<times> 'a ChunkedFIFO" where
  "ChunkedFIFO_pop dflt w s =
     (let (r, (items, n)) = pop_rec dflt (Items s, data s w)
      in (r, \<lparr>Items = items, data = (data s)(w := n)\<rparr>))"

definition ChunkedFIFO_empty :: "nat \<Rightarrow> 'a ChunkedFIFO \<Rightarrow> bool" where
  "ChunkedFIFO_empty w s =
     (let n = data s w in
      if (case curr n of Some c \<Rightarrow> \<not> LIFO_empty c | None \<Rightarrow> False) then False
      else if (case next' n of Some c \<Rightarrow> \<not> LIFO_empty c | None \<Rightarrow> False) then False
      else FIFO_empty (Items s))"

definition ChunkedFIFO_aborted ::
  "ChunkedFIFO_params \<Rightarrow> nat \<Rightarrow> 'a \<Rightarrow> 'a ChunkedFIFO \<Rightarrow> 'a ChunkedFIFO" where
  "ChunkedFIFO_aborted P w val s =
     (let (items, n) = push_next (ChunkSize P) val (Items s, data s w)
      in \<lparr>Items = items, data = (data s)(w := n)\<rparr>)"

fun fill_initial_loop ::
  "int \<Rightarrow> 'a list \<Rightarrow> 'a Chunk option list \<times> 'a ProcRec \<Rightarrow> 'a Chunk option list \<times> 'a ProcRec" where
  "fill_initial_loop CS [] st = st"
| "fill_initial_loop CS (x # xs) st = fill_initial_loop CS xs (push_next CS x st)"

definition ChunkedFIFO_fill_initial ::
  "ChunkedFIFO_params \<Rightarrow> nat \<Rightarrow> 'a list \<Rightarrow> 'a ChunkedFIFO \<Rightarrow> 'a ChunkedFIFO" where
  "ChunkedFIFO_fill_initial P w xs s =
     (let (items, n) = fill_initial_loop (ChunkSize P) xs (Items s, data s w)
      in \<lparr>Items = FIFO_push (next' n) items, data = (data s)(w := n\<lparr>next' := None\<rparr>)\<rparr>)"

text \<open>
  \<open>pop_fuel k\<close> is \<open>pop\<close> with its call depth limited to \<open>k\<close>: it has the body of
  \<open>pop_rec\<close>, and is \<open>None\<close> where a call of depth \<open>k + 1\<close> would be needed.
\<close>

fun pop_fuel ::
  "nat \<Rightarrow> 'a \<Rightarrow> 'a Chunk option list \<times> 'a ProcRec
     \<Rightarrow> ((bool \<times> 'a) \<times> ('a Chunk option list \<times> 'a ProcRec)) option" where
  "pop_fuel 0 dflt st = None"
| "pop_fuel (Suc k) dflt st =
     (let (items, n) = (if curr (snd st) = None then fill_curr st else st)
      in case curr n of
           Some c \<Rightarrow>
             if LIFO_empty c then pop_fuel k dflt (items, n\<lparr>curr := None\<rparr>)
             else (let (r, c') = LIFO_pop dflt c in Some (r, (items, n\<lparr>curr := Some c'\<rparr>)))
         | None \<Rightarrow> Some ((False, dflt), (items, n)))"

text \<open>Sequences of calls, each by some worker.\<close>

datatype 'a ChunkedFIFO_op =
  Push nat 'a | Aborted nat 'a | Pop nat | Fill_initial nat "'a list"

fun ChunkedFIFO_step ::
  "ChunkedFIFO_params \<Rightarrow> 'a \<Rightarrow> 'a ChunkedFIFO_op \<Rightarrow> 'a ChunkedFIFO \<Rightarrow> 'a ChunkedFIFO" where
  "ChunkedFIFO_step P dflt (Push w val) s = ChunkedFIFO_push P w val s"
| "ChunkedFIFO_step P dflt (Aborted w val) s = ChunkedFIFO_aborted P w val s"
| "ChunkedFIFO_step P dflt (Pop w) s = snd (ChunkedFIFO_pop dflt w s)"
| "ChunkedFIFO_step P dflt (Fill_initial w xs) s = ChunkedFIFO_fill_initial P w xs s"

fun ChunkedFIFO_run ::
  "ChunkedFIFO_params \<Rightarrow> 'a \<Rightarrow> 'a ChunkedFIFO_op list \<Rightarrow> 'a ChunkedFIFO \<Rightarrow> 'a ChunkedFIFO" where
  "ChunkedFIFO_run P dflt [] s = s"
| "ChunkedFIFO_run P dflt (x # xs) s = ChunkedFIFO_run P dflt xs (ChunkedFIFO_step P dflt x s)"

fun is_Fill_initial :: "'a ChunkedFIFO_op \<Rightarrow> bool" where
  "is_Fill_initial (Fill_initial w xs) = True"
| "is_Fill_initial _ = False"


subsection \<open>OrderedByIntegerMetric\<close>

text \<open>
  \<open>data\<close> is the array \<open>new ContainerTy[size]\<close> of buckets, each a \<open>FIFO<T>\<close>;
  \<open>size\<close>, the cursors and the indices are \<open>unsigned int\<close>, 32-bit words.  Indexing
  the array at or beyond its allocated length is undefined behaviour in C++: the model stops
  with \<open>OutOfBounds\<close> and the index.  The indexer \<open>I\<close> is a parameter.
\<close>

datatype error = OutOfBounds nat

text \<open>
  Modelled from the spec: \<open>CPUSpaced<unsigned int>\<close> is not among the sources; each
  worker holds a cursor of its own, initialized to 0.
\<close>

record 'a OBIM =
  OBIM_data :: "'a list list"
  OBIM_size :: "32 word"
  cursor :: "nat \<Rightarrow> 32 word"

definition OBIM_new :: "32 word \<Rightarrow> 'a OBIM" where
  "OBIM_new range' =
     \<lparr>OBIM_data = replicate (unat (range' + 1)) [], OBIM_size = range' + 1,
      cursor = (\<lambda>w. 0)\<rparr>"

definition OBIM_push ::
  "('a \<Rightarrow> 32 word \<Rightarrow> 32 word) \<Rightarrow> nat \<Rightarrow> 'a \<Rightarrow> 'a OBIM \<Rightarrow> error + 'a OBIM" where
  "OBIM_push I w val s =
     (let index = I val (OBIM_size s) in
      if unat index < length (OBIM_data s) then
        (let s1 = s\<lparr>OBIM_data :=
                      (OBIM_data s)[unat index := FIFO_push val (OBIM_data s ! unat index)]\<rparr>;
             cur = cursor s1 w
         in Inr (if cur > index then s1\<lparr>cursor := (cursor s1)(w := index)\<rparr> else s1))
      else Inl (OutOfBounds (unat index)))"

text \<open>The \<open>while\<close> loop of \<open>pop\<close>, on the bucket array, \<open>cur\<close> and \<open>ret\<close>.\<close>

function OBIM_pop_loop ::
  "'a \<Rightarrow> 32 word \<Rightarrow> 'a list list \<Rightarrow> 32 word \<Rightarrow> bool \<times> 'a
     \<Rightarrow> error + ((bool \<times> 'a) \<times> 'a list list \<times> 32 word)" where
  "OBIM_pop_loop dflt sz dat cur ret =
     (if cur < sz \<and> \<not> fst ret then
        (let cur' = cur + 1 in
         if unat cur' < length dat then
           (let (ret', b) = FIFO_pop dflt (dat ! unat cur')
            in OBIM_pop_loop dflt sz (dat[unat cur' := b]) cur' ret')
         else Inl (OutOfBounds (unat cur')))
      else Inr (ret, dat, cur))"
  by pat_completeness auto
termination
proof (relation "measure (\<lambda>(dflt, sz, dat, cur, ret). unat sz - unat cur)")
  show "wf (measure (\<lambda>(dflt, sz, dat, cur, ret). unat sz - unat cur))" by simp
next
  fix dflt :: 'a and sz cur :: "32 word" and dat :: "'a list list" and ret :: "bool \<times> 'a"
  fix cur' x ret' b
  assume lt: "cur < sz \<and> \<not> fst ret" and c: "cur' = cur + 1"
  from lt have lt': "unat cur < unat sz" by (simp add: word_less_nat_alt)
  moreover have "unat sz < 2 ^ LENGTH(32)" by (rule unsigned_less)
  ultimately have "unat cur + unat (1::32 word) < 2 ^ LENGTH(32)" by simp
  then have "unat (cur + 1) = unat cur + unat (1::32 word)" by (simp only: unat_add_lem)
  with lt' have "unat sz - unat cur' < unat sz - unat cur" using c by simp
  then show "((dflt, sz, dat[unat cur' := b], cur', ret'), dflt, sz, dat, cur, ret)
               \<in> measure (\<lambda>(dflt, sz, dat, cur, ret). unat sz - unat cur)"
    by simp
qed

definition OBIM_pop :: "'a \<Rightarrow> nat \<Rightarrow> 'a OBIM \<Rightarrow> error + ((bool \<times> 'a) \<times> 'a OBIM)" where
  "OBIM_pop dflt w s =
     (let cur = (if cursor s w = OBIM_size s then 0 else cursor s w) in
      if unat cur < length (OBIM_data s) then
        (let (ret, b) = FIFO_pop dflt (OBIM_data s ! unat cur)
         in case OBIM_pop_loop dflt (OBIM_size s) ((OBIM_data s)[unat cur := b]) cur ret of
              Inl e \<Rightarrow> Inl e
            | Inr (ret', dat, cur') \<Rightarrow>
                Inr (ret', s\<lparr>OBIM_data := dat, cursor := (cursor s)(w := cur')\<rparr>))
      else Inl (OutOfBounds (unat cur)))"

text \<open>Sequences of calls; the results of the pops are collected in order.\<close>

datatype 'a OBIM_op = OPush nat 'a | OPop nat

fun OBIM_run ::
  "('a \<Rightarrow> 32 word \<Rightarrow> 32 word) \<Rightarrow> 'a \<Rightarrow> 'a OBIM_op list \<Rightarrow> 'a OBIM
     \<Rightarrow> error + ((bool \<times> 'a) list \<times> 'a OBIM)" where
  "OBIM_run I dflt [] s = Inr ([], s)"
| "OBIM_run I dflt (OPush w val # xs) s =
     (case OBIM_push I w val s of Inl e \<Rightarrow> Inl e | Inr s' \<Rightarrow> OBIM_run I dflt xs s')"
| "OBIM_run I dflt (OPop w # xs) s =
     (case OBIM_pop dflt w s of
        Inl e \<Rightarrow> Inl e
      | Inr (r, s') \<Rightarrow>
          (case OBIM_run I dflt xs s' of Inl e \<Rightarrow> Inl e | Inr (rs, s'') \<Rightarrow> Inr (r # rs, s'')))"

subsection \<open>CacheByIntegerMetric\<close>

text \<open>
  \<open>struct __cacheTy\<close> is a slot; the per-worker \<open>cacheInst\<close> is an array of \<open>size\<close>
  slots, modelled by a list of that length.  The parent worklist \<open>ParentTy& data\<close> is a
  template parameter: its state has any type \<open>'p\<close> and its \<open>push\<close> is the parameter
  \<open>P_push\<close>.
\<close>

record 'a cacheSlot =
  valid :: bool
  slot_data :: 'a

text \<open>
  Modelled from the spec: \<open>CPUSpaced<cacheTy>\<close> is not among the sources; each worker
  has a cache of its own.
\<close>

record ('a, 'p) CacheByIntegerMetric =
  CBIM_data :: 'p
  cache :: "nat \<Rightarrow> 'a cacheSlot list"

text \<open>
  The \<open>for\<close> loop of \<open>push\<close>.  The result is the array and, when the loop ran to its
  end, the \<open>val\<close> that goes to the parent; \<open>None\<close> when an open slot took the value and
  \<open>push\<close> returned from inside the loop.
\<close>

function CBIM_push_loop ::
  "('a \<Rightarrow> 32 word \<Rightarrow> 32 word) \<Rightarrow> 32 word \<Rightarrow> 'a cacheSlot list \<Rightarrow> 32 word \<Rightarrow> 'a \<Rightarrow> 32 word
     \<Rightarrow> 'a cacheSlot list \<times> 'a option" where
  "CBIM_push_loop I sz c i val valIndex =
     (if i < sz then
        (if valid (c ! unat i) then
           (if valIndex < I (slot_data (c ! unat i)) sz then
              (let tmp = slot_data (c ! unat i);
                   c' = c[unat i := (c ! unat i)\<lparr>slot_data := val\<rparr>]
               in CBIM_push_loop I sz c' (i + 1) tmp (I tmp sz))
            else CBIM_push_loop I sz c (i + 1) val valIndex)
         else (c[unat i := (c ! unat i)\<lparr>valid := True, slot_data := val\<rparr>], None))
      else (c, Some val))"
  by pat_completeness auto
termination
proof (relation "measure (\<lambda>(I, sz, c, i, val, valIndex). unat sz - unat i)")
  show "wf (measure (\<lambda>(I, sz, c, i, val, valIndex). unat sz - unat i))" by simp
next
  fix sz i :: "32 word"
  assume lt: "i < sz"
  from lt have lt': "unat i < unat sz" by (simp add: word_less_nat_alt)
  moreover have "unat sz < 2 ^ LENGTH(32)" by (rule unsigned_less)
  ultimately have "unat i + unat (1::32 word) < 2 ^ LENGTH(32)" by simp
  then have "unat (i + 1) = unat i + unat (1::32 word)" by (simp only: unat_add_lem)
  with lt' have d: "unat sz - unat (i + 1) < unat sz - unat i" by simp
  {
    fix I :: "'a \<Rightarrow> 32 word \<Rightarrow> 32 word" and c c' :: "'a cacheSlot list" and val tmp :: 'a
      and valIndex v' :: "32 word"
    show "((I, sz, c', i + 1, tmp, v'), I, sz, c, i, val, valIndex)
            \<in> measure (\<lambda>(I, sz, c, i, val, valIndex). unat sz - unat i)"
      using d by simp
  }
  {
    fix I :: "'a \<Rightarrow> 32 word \<Rightarrow> 32 word" and c :: "'a cacheSlot list" and val :: 'a
      and valIndex :: "32 word"
    show "((I, sz, c, i + 1, val, valIndex), I, sz, c, i, val, valIndex)
            \<in> measure (\<lambda>(I, sz, c, i, val, valIndex). unat sz - unat i)"
      using d by simp
  }
qed

definition CacheByIntegerMetric_push ::
  "('a \<Rightarrow> 32 word \<Rightarrow> 32 word) \<Rightarrow> 32 word \<Rightarrow> ('a \<Rightarrow> 'p \<Rightarrow> 'p) \<Rightarrow> nat \<Rightarrow> 'a
     \<Rightarrow> ('a, 'p) CacheByIntegerMetric \<Rightarrow> ('a, 'p) CacheByIntegerMetric" where
  "CacheByIntegerMetric_push I sz P_push w val s =
     (case CBIM_push_loop I sz (cache s w) 0 val (I val sz) of
        (c, None) \<Rightarrow> s\<lparr>cache := (cache s)(w := c)\<rparr>
      | (c, Some v) \<Rightarrow> s\<lparr>cache := (cache s)(w := c), CBIM_data := P_push v (CBIM_data s)\<rparr>)"

subsection \<open>Predicates on states\<close>

text \<open>
  \<open>next_counted\<close>: the counter \<open>nextSize\<close> is the number of items of the chunk
  \<open>next\<close> points to.  \<open>chunk_full\<close>: the pointer is not null and its chunk has
  exactly \<open>ChunkSize\<close> items.  \<open>not_full\<close>: how many entries of \<open>Items\<close> are not
  so.
\<close>

definition next_counted :: "'a ProcRec \<Rightarrow> bool" where
  "next_counted n = (\<forall>c. next' n = Some c \<longrightarrow> nextSize n = int (length c))"

definition chunk_full :: "int \<Rightarrow> 'a Chunk option \<Rightarrow> bool" where
  "chunk_full CS p = (case p of None \<Rightarrow> False | Some c \<Rightarrow> int (length c) = CS)"

definition not_full :: "int \<Rightarrow> 'a Chunk option list \<Rightarrow> nat" where
  "not_full CS items = length (filter (\<lambda>p. \<not> chunk_full CS p) items)"

definition CF_inv :: "nat \<Rightarrow> ChunkedFIFO_params \<Rightarrow> 'a ChunkedFIFO \<Rightarrow> bool" where
  "CF_inv k P s = (not_full (ChunkSize P) (Items s) \<le> k \<and> (\<forall>w. next_counted (data s w)))"

text \<open>
  \<open>quiet_op I w s x\<close>: the call \<open>x\<close> is not a \<open>pop\<close> by worker \<open>w\<close>, and not a
  \<open>push\<close> by \<open>w\<close> to a bucket below the cursor \<open>w\<close> has in \<open>s\<close>.
\<close>

fun quiet_op :: "('a \<Rightarrow> 32 word \<Rightarrow> 32 word) \<Rightarrow> nat \<Rightarrow> 'a OBIM \<Rightarrow> 'a OBIM_op \<Rightarrow> bool" where
  "quiet_op I w s (OPush u val) = (u = w \<longrightarrow> cursor s w \<le> I val (OBIM_size s))"
| "quiet_op I w s (OPop u) = (u \<noteq> w)"

section \<open>Properties\<close>

declare pop_rec.simps [simp del]
declare OBIM_pop_loop.simps [simp del]
declare CBIM_push_loop.simps [simp del]

lemmas STL_defs = STLAdaptor_push_def STLAdaptor_pop_def STLAdaptor_empty_def
  std_stack_def stdqueueFix_def LIFO_push_def LIFO_pop_def LIFO_empty_def
  FIFO_push_def FIFO_pop_def FIFO_empty_def

lemmas CF_defs = ChunkedFIFO_push_def ChunkedFIFO_pop_def ChunkedFIFO_empty_def
  ChunkedFIFO_aborted_def ChunkedFIFO_fill_initial_def ChunkedFIFO_new_def ProcRec_new_def
  push_next_def push_local_def fill_curr_def

subsection \<open>Incrementing an \<open>unsigned int\<close> below a bound\<close>

lemma word32_less_Suc:
  fixes i sz :: "32 word"
  assumes "i < sz"
  shows "unat (i + 1) = Suc (unat i)" and "unat i < unat sz"
proof -
  from assms show lt: "unat i < unat sz" by (simp add: word_less_nat_alt)
  have "unat sz < 2 ^ LENGTH(32)" by (rule unsigned_less)
  with lt have "unat i + unat (1::32 word) < 2 ^ LENGTH(32)" by simp
  then have "unat (i + 1) = unat i + unat (1::32 word)" by (simp only: unat_add_lem)
  then show "unat (i + 1) = Suc (unat i)" by simp
qed

subsection \<open>The adaptors on lists\<close>

lemma FIFO_pop_Nil: "FIFO_pop dflt [] = ((False, dflt), [])"
  by (simp add: STL_defs)

lemma FIFO_pop_Cons: "FIFO_pop dflt (x # xs) = ((True, x), xs)"
  by (simp add: STL_defs)

lemma FIFO_push_eq: "FIFO_push x xs = xs @ [x]"
  by (simp add: STL_defs)

lemma LIFO_push_eq: "LIFO_push x xs = x # xs"
  by (simp add: STL_defs)

lemma LIFO_pop_Cons: "LIFO_pop dflt (x # xs) = ((True, x), xs)"
  by (simp add: STL_defs)

lemma LIFO_empty_eq: "LIFO_empty xs = (xs = [])"
  by (simp add: STL_defs)

subsection \<open>ChunkedFIFO: what is queued is full, but for fill_initial\<close>

lemma fill_curr_Nil: "fill_curr ([], n) = ([], n\<lparr>curr := next' n, next' := None\<rparr>)"
  by (simp add: fill_curr_def FIFO_pop_Nil)

lemma fill_curr_Cons: "fill_curr (p # ps, n) = (ps, n\<lparr>curr := p\<rparr>)"
  by (simp add: fill_curr_def FIFO_pop_Cons)

lemma push_next_no_overflow:
  assumes "0 < CS" and "next' n \<noteq> None \<longrightarrow> 0 \<le> nextSize n \<and> nextSize n \<le> CS"
    and "push_next CS val (items, n) = (items', n')"
  shows "next' n' \<noteq> None \<and> 0 < nextSize n' \<and> nextSize n' \<le> CS"
  using assms
  by (auto simp: push_next_def Let_def split: if_splits)

lemma not_full_Nil: "not_full CS [] = 0"
  by (simp add: not_full_def)

lemma not_full_tl: "not_full CS ps \<le> not_full CS (p # ps)"
  by (simp add: not_full_def)

lemma not_full_snoc:
  "not_full CS (ps @ [p]) = not_full CS ps + (if chunk_full CS p then 0 else 1)"
  by (simp add: not_full_def)

lemma push_next_not_full:
  assumes "next_counted n" and "push_next CS val (items, n) = (items', n')"
  shows "not_full CS items' = not_full CS items \<and> next_counted n'"
  using assms
  by (auto simp: push_next_def next_counted_def FIFO_push_eq LIFO_push_eq not_full_snoc
      chunk_full_def Let_def split: if_splits)

lemma fill_curr_not_full:
  assumes "next_counted n" and "fill_curr (items, n) = (items', n')"
  shows "not_full CS items' \<le> not_full CS items \<and> next_counted n'"
  using assms not_full_tl[of CS "tl items" "hd items"]
  by (cases items) (auto simp: fill_curr_Nil fill_curr_Cons next_counted_def)

lemma push_local_not_full:
  assumes "next_counted n" and "push_local CS val (items, n) = (items', n')"
  shows "not_full CS items' \<le> not_full CS items \<and> next_counted n'"
proof -
  obtain its m where f: "(if curr n = None then fill_curr (items, n) else (items, n)) = (its, m)"
    by (cases "if curr n = None then fill_curr (items, n) else (items, n)")
  with assms(1) have i: "not_full CS its \<le> not_full CS items \<and> next_counted m"
    using fill_curr_not_full[OF assms(1), of items its m CS] by (auto split: if_splits)
  show ?thesis
  proof (cases "curr m")
    case None
    with f assms(2) have "push_next CS val (its, m) = (items', n')"
      by (simp add: push_local_def)
    with i push_next_not_full[of m CS val its items' n'] show ?thesis by simp
  next
    case (Some c)
    with f assms(2) have "items' = its" and "n' = m\<lparr>curr := Some (LIFO_push val c)\<rparr>"
      by (simp_all add: push_local_def)
    with i show ?thesis by (simp add: next_counted_def)
  qed
qed

lemma pop_rec_not_full:
  "next_counted (snd st) \<Longrightarrow>
   not_full CS (fst (snd (pop_rec dflt st))) \<le> not_full CS (fst st)
     \<and> next_counted (snd (snd (pop_rec dflt st)))"
proof (induction dflt st rule: pop_rec.induct)
  case (1 dflt st)
  obtain its m where f: "(if curr (snd st) = None then fill_curr st else st) = (its, m)"
    by (cases "if curr (snd st) = None then fill_curr st else st")
  from "1.prems" f have i: "not_full CS its \<le> not_full CS (fst st) \<and> next_counted m"
    using fill_curr_not_full[of "snd st" "fst st" its m CS] by (cases st) (auto split: if_splits)
  show ?case
  proof (cases "curr m")
    case None
    with f i show ?thesis by (subst (1 2) pop_rec.simps) simp
  next
    case (Some c)
    show ?thesis
    proof (cases "LIFO_empty c")
      case True
      have "not_full CS (fst (snd (pop_rec dflt (its, m\<lparr>curr := None\<rparr>)))) \<le> not_full CS its
              \<and> next_counted (snd (snd (pop_rec dflt (its, m\<lparr>curr := None\<rparr>))))"
        using "1.IH"[OF refl f[symmetric] Some True] i by (simp add: next_counted_def)
      with f Some True i show ?thesis by (subst (1 2) pop_rec.simps) simp
    next
      case False
      with f Some i show ?thesis
        by (subst (1 2) pop_rec.simps) (simp add: next_counted_def split: prod.splits)
    qed
  qed
qed

lemma fill_initial_loop_not_full:
  "next_counted n \<Longrightarrow> fill_initial_loop CS xs (items, n) = (items', n')
     \<Longrightarrow> not_full CS items' = not_full CS items \<and> next_counted n'"
proof (induction xs arbitrary: items n)
  case Nil
  then show ?case by simp
next
  case (Cons x xs)
  obtain its m where p: "push_next CS x (items, n) = (its, m)"
    by (cases "push_next CS x (items, n)")
  from push_next_not_full[OF Cons.prems(1) p]
  have i: "not_full CS its = not_full CS items" and c: "next_counted m" by simp_all
  from Cons.prems(2) p have "fill_initial_loop CS xs (its, m) = (items', n')" by simp
  from Cons.IH[OF c this] i show ?case by simp
qed

lemma CF_inv_new: "CF_inv 0 P ChunkedFIFO_new"
  by (simp add: CF_inv_def ChunkedFIFO_new_def ProcRec_new_def not_full_Nil next_counted_def)

lemma CF_inv_lift:
  assumes "CF_inv k P s" and "not_full (ChunkSize P) items \<le> k'" and "next_counted n"
  shows "CF_inv k' P \<lparr>Items = items, data = (data s)(w := n)\<rparr>"
  using assms by (simp add: CF_inv_def)

lemma CF_inv_push: "CF_inv k P s \<Longrightarrow> CF_inv k P (ChunkedFIFO_push P w val s)"
proof -
  assume i: "CF_inv k P s"
  then have q: "not_full (ChunkSize P) (Items s) \<le> k" and c: "next_counted (data s w)"
    by (simp_all add: CF_inv_def)
  obtain items n where r:
    "(if pushToLocal P then push_local (ChunkSize P) val (Items s, data s w)
      else push_next (ChunkSize P) val (Items s, data s w)) = (items, n)"
    by (cases "if pushToLocal P then push_local (ChunkSize P) val (Items s, data s w)
      else push_next (ChunkSize P) val (Items s, data s w)")
  then have "not_full (ChunkSize P) items \<le> not_full (ChunkSize P) (Items s) \<and> next_counted n"
    using push_local_not_full[OF c, of "ChunkSize P" val "Items s" items n]
      push_next_not_full[OF c, of "ChunkSize P" val "Items s" items n]
    by (auto split: if_splits)
  with q have "not_full (ChunkSize P) items \<le> k" and "next_counted n" by simp_all
  from CF_inv_lift[OF i this] r show ?thesis by (simp add: ChunkedFIFO_push_def)
qed

lemma CF_inv_aborted: "CF_inv k P s \<Longrightarrow> CF_inv k P (ChunkedFIFO_aborted P w val s)"
proof -
  assume i: "CF_inv k P s"
  then have q: "not_full (ChunkSize P) (Items s) \<le> k" and c: "next_counted (data s w)"
    by (simp_all add: CF_inv_def)
  obtain items n where r: "push_next (ChunkSize P) val (Items s, data s w) = (items, n)"
    by (cases "push_next (ChunkSize P) val (Items s, data s w)")
  from push_next_not_full[OF c r] q
  have "not_full (ChunkSize P) items \<le> k" and "next_counted n" by simp_all
  from CF_inv_lift[OF i this] r show ?thesis by (simp add: ChunkedFIFO_aborted_def)
qed

lemma CF_inv_pop: "CF_inv k P s \<Longrightarrow> CF_inv k P (snd (ChunkedFIFO_pop dflt w s))"
proof -
  assume i: "CF_inv k P s"
  then have q: "not_full (ChunkSize P) (Items s) \<le> k"
    and c: "next_counted (snd (Items s, data s w))"
    by (simp_all add: CF_inv_def)
  obtain r items n where r: "pop_rec dflt (Items s, data s w) = (r, items, n)"
    by (cases "pop_rec dflt (Items s, data s w)") auto
  with pop_rec_not_full[OF c, of "ChunkSize P" dflt] q
  have "not_full (ChunkSize P) items \<le> k" and "next_counted n" by simp_all
  from CF_inv_lift[OF i this] r show ?thesis by (simp add: ChunkedFIFO_pop_def)
qed

lemma CF_inv_fill_initial:
  "CF_inv k P s \<Longrightarrow> CF_inv (Suc k) P (ChunkedFIFO_fill_initial P w xs s)"
proof -
  assume i: "CF_inv k P s"
  then have q: "not_full (ChunkSize P) (Items s) \<le> k" and c: "next_counted (data s w)"
    by (simp_all add: CF_inv_def)
  obtain items n where r: "fill_initial_loop (ChunkSize P) xs (Items s, data s w) = (items, n)"
    by (cases "fill_initial_loop (ChunkSize P) xs (Items s, data s w)")
  from fill_initial_loop_not_full[OF c r] q
  have "not_full (ChunkSize P) (FIFO_push (next' n) items) \<le> Suc k"
    and "next_counted (n\<lparr>next' := None\<rparr>)"
    by (simp_all add: FIFO_push_eq not_full_snoc next_counted_def)
  from CF_inv_lift[OF i this] r show ?thesis by (simp add: ChunkedFIFO_fill_initial_def)
qed

lemma CF_inv_step:
  "CF_inv k P s \<Longrightarrow>
   CF_inv (k + (if is_Fill_initial x then 1 else 0)) P (ChunkedFIFO_step P dflt x s)"
  by (cases x) (simp_all add: CF_inv_push CF_inv_aborted CF_inv_pop CF_inv_fill_initial)

lemma CF_inv_run:
  "CF_inv k P s \<Longrightarrow>
   CF_inv (k + length (filter is_Fill_initial ops)) P (ChunkedFIFO_run P dflt ops s)"
proof (induction ops arbitrary: k s)
  case Nil
  then show ?case by simp
next
  case (Cons x xs)
  from Cons.IH[OF CF_inv_step[OF Cons.prems, where x = x and dflt = dflt]]
  show ?case by (cases "is_Fill_initial x") (simp_all add: add.assoc)
qed

text \<open>
  Claim C1, as stated: every chunk in the global chunk FIFO holds exactly \<open>ChunkSize\<close>
  items after every sequence of \<open>push\<close>, \<open>aborted\<close> and \<open>fill_initial\<close>.  It fails:
  \<open>fill_initial\<close> ends with \<open>Items.push(n.next)\<close> whatever \<open>nextSize\<close> is.  On a new
  worklist with the default \<open>ChunkSize = 64\<close>, \<open>fill_initial\<close> of the one item 1 queues
  a chunk of one item.
\<close>

theorem chunk_fullness_fill_initial_counterexample:
  "Some [1] \<in> set (Items (ChunkedFIFO_run default_params 0 [Fill_initial 0 [1::int]]
                            ChunkedFIFO_new))
   \<and> int (length [1::int]) \<noteq> ChunkSize default_params"
  by (simp add: ChunkedFIFO_fill_initial_def default_params_def
        ChunkedFIFO_new_def ProcRec_new_def push_next_def STL_defs)

text \<open>
  Claim C1, amended: after every sequence of \<open>push\<close>, \<open>aborted\<close>, \<open>pop\<close> and
  \<open>fill_initial\<close> calls by any workers on a new ChunkedFIFO, the entries of the global
  chunk FIFO that are not chunks of exactly \<open>ChunkSize\<close> items are at most as many as
  the \<open>fill_initial\<close> calls.  In particular, after every sequence of \<open>push\<close>,
  \<open>aborted\<close> and \<open>pop\<close> calls every entry is a chunk of exactly \<open>ChunkSize\<close> items.
\<close>

theorem chunk_fullness_except_fill_initial:
  "not_full (ChunkSize P) (Items (ChunkedFIFO_run P dflt ops ChunkedFIFO_new))
     \<le> length (filter is_Fill_initial ops)
   \<and> ((\<forall>x\<in>set ops. \<not> is_Fill_initial x) \<longrightarrow>
        (\<forall>p\<in>set (Items (ChunkedFIFO_run P dflt ops ChunkedFIFO_new)).
           \<exists>c. p = Some c \<and> int (length c) = ChunkSize P))"
proof -
  let ?items = "Items (ChunkedFIFO_run P dflt ops ChunkedFIFO_new)"
  from CF_inv_run[OF CF_inv_new, where P = P and ops = ops and dflt = dflt]
  have a: "not_full (ChunkSize P) ?items \<le> length (filter is_Fill_initial ops)"
    by (simp add: CF_inv_def)
  have b: "\<forall>p\<in>set ?items. \<exists>c. p = Some c \<and> int (length c) = ChunkSize P"
    if n: "\<forall>x\<in>set ops. \<not> is_Fill_initial x"
  proof -
    from n have "filter is_Fill_initial ops = []" by (simp add: filter_empty_conv)
    with a have "filter (\<lambda>p. \<not> chunk_full (ChunkSize P) p) ?items = []"
      by (simp add: not_full_def)
    then have "\<forall>p\<in>set ?items. chunk_full (ChunkSize P) p" by (simp add: filter_empty_conv)
    then show ?thesis by (auto simp: chunk_full_def split: option.splits)
  qed
  from a b show ?thesis by blast
qed

theorem chunk_fullness_except_fill_initial_witness:
  "list_all (\<lambda>x. \<not> is_Fill_initial x) [Push 0 (1::int), Aborted 1 7, Push 0 2, Pop 1, Push 0 3]
   \<and> Items (ChunkedFIFO_run \<lparr>ChunkSize = 2, pushToLocal = False\<rparr> 0
        [Push 0 (1::int), Aborted 1 7, Push 0 2, Pop 1, Push 0 3] ChunkedFIFO_new) = [Some [2, 1]]
   \<and> list_all (\<lambda>p. \<exists>c. p = Some c
                    \<and> int (length c) = ChunkSize \<lparr>ChunkSize = 2, pushToLocal = False\<rparr>)
        (Items (ChunkedFIFO_run \<lparr>ChunkSize = 2, pushToLocal = False\<rparr> 0
          [Push 0 (1::int), Aborted 1 7, Push 0 2, Pop 1, Push 0 3] ChunkedFIFO_new))"
proof -
  have a: "\<forall>x\<in>set [Push 0 (1::int), Aborted 1 7, Push 0 2, Pop 1, Push 0 3].
             \<not> is_Fill_initial x"
    by simp
  have b: "Items (ChunkedFIFO_run \<lparr>ChunkSize = 2, pushToLocal = False\<rparr> 0
        [Push 0 (1::int), Aborted 1 7, Push 0 2, Pop 1, Push 0 3] ChunkedFIFO_new) = [Some [2, 1]]"
    by (simp add: ChunkedFIFO_push_def ChunkedFIFO_pop_def ChunkedFIFO_aborted_def
        ChunkedFIFO_new_def ProcRec_new_def push_next_def fill_curr_def pop_rec.simps STL_defs)
  from a b chunk_fullness_except_fill_initial[where P = "\<lparr>ChunkSize = 2, pushToLocal = False\<rparr>" and dflt = 0
      and ops = "[Push 0 (1::int), Aborted 1 7, Push 0 2, Pop 1, Push 0 3]"]
  show ?thesis by (simp add: list_all_iff)
qed

subsection \<open>ChunkedFIFO: batching\<close>

text \<open>
  Claim C2, as stated: with \<open>ChunkSize = 4\<close>, after five pushes by one worker the
  global chunk FIFO holds one chunk and the worker's \<open>next\<close> holds one item.  It
  fails for the default \<open>pushToLocal = true\<close>: the second push finds \<open>curr\<close> null,
  \<open>fill_curr\<close> moves \<open>next\<close> into \<open>curr\<close>, and every later push goes into
  \<open>curr\<close>, which nothing bounds.  After five pushes nothing is queued, \<open>next\<close> is
  null and \<open>curr\<close> holds the five items.
\<close>

theorem batching_push_to_local_counterexample:
  "length (Items (ChunkedFIFO_run \<lparr>ChunkSize = 4, pushToLocal = True\<rparr> (0::int)
       [Push 0 1, Push 0 2, Push 0 3, Push 0 4, Push 0 5] ChunkedFIFO_new)) = 0
   \<and> next' (data (ChunkedFIFO_run \<lparr>ChunkSize = 4, pushToLocal = True\<rparr> (0::int)
       [Push 0 1, Push 0 2, Push 0 3, Push 0 4, Push 0 5] ChunkedFIFO_new) 0) = None
   \<and> curr (data (ChunkedFIFO_run \<lparr>ChunkSize = 4, pushToLocal = True\<rparr> (0::int)
       [Push 0 1, Push 0 2, Push 0 3, Push 0 4, Push 0 5] ChunkedFIFO_new) 0)
       = Some [5, 4, 3, 2, 1]"
  by (simp add: CF_defs STL_defs)

text \<open>
  Claim C2, amended: for a ChunkedFIFO with \<open>ChunkSize = 4\<close> and
  \<open>pushToLocal = false\<close>, after one worker has pushed four items on a new worklist the
  global chunk FIFO holds no chunk; after its fifth push the global chunk FIFO holds
  exactly one chunk, the one of the first four items, and the worker's \<open>next\<close> holds
  exactly the fifth item.
\<close>

theorem batching_push_next:
  "Items (ChunkedFIFO_run \<lparr>ChunkSize = 4, pushToLocal = False\<rparr> dflt
            [Push w a, Push w b, Push w c, Push w d] ChunkedFIFO_new) = []
   \<and> Items (ChunkedFIFO_run \<lparr>ChunkSize = 4, pushToLocal = False\<rparr> dflt
            [Push w a, Push w b, Push w c, Push w d, Push w e] ChunkedFIFO_new)
       = [Some [d, c, b, a]]
   \<and> next' (data (ChunkedFIFO_run \<lparr>ChunkSize = 4, pushToLocal = False\<rparr> dflt
            [Push w a, Push w b, Push w c, Push w d, Push w e] ChunkedFIFO_new) w)
       = Some [e]"
  by (simp add: CF_defs STL_defs)

subsection \<open>ChunkedFIFO: pop returns\<close>

lemma ChunkedFIFO_pop_fst:
  "fst (ChunkedFIFO_pop dflt w s) = fst (pop_rec dflt (Items s, data s w))"
  by (simp add: ChunkedFIFO_pop_def split: prod.splits)

lemma pop_rec_descends:
  assumes x: "(if curr (snd st) = None then fill_curr st else st) = (items, n)"
    and c: "curr n = Some c"
  shows "chunks_reachable (items, n\<lparr>curr := None\<rparr>) < chunks_reachable st"
proof (cases "curr (snd st) = None")
  case False
  with x have "st = (items, n)" by simp
  with c show ?thesis by (simp add: chunks_reachable_def)
next
  case True
  with x have f: "fill_curr st = (items, n)" by simp
  obtain its m where st: "st = (its, m)" by (cases st)
  show ?thesis
  proof (cases its)
    case Nil
    with f st c True show ?thesis
      by (auto simp: fill_curr_Nil chunks_reachable_def)
  next
    case (Cons p ps)
    with f st c True show ?thesis
      by (auto simp: fill_curr_Cons chunks_reachable_def)
  qed
qed

lemma pop_fuel_enough:
  "chunks_reachable st < k \<Longrightarrow> pop_fuel k dflt st = Some (pop_rec dflt st)"
proof (induction dflt st arbitrary: k rule: pop_rec.induct)
  case (1 dflt st)
  from "1.prems" obtain k' where k: "k = Suc k'" by (cases k) auto
  obtain its m where f: "(if curr (snd st) = None then fill_curr st else st) = (its, m)"
    by (cases "if curr (snd st) = None then fill_curr st else st")
  show ?case
  proof (cases "curr m")
    case None
    with f k show ?thesis by (subst pop_rec.simps) simp
  next
    case (Some c)
    show ?thesis
    proof (cases "LIFO_empty c")
      case True
      from pop_rec_descends[OF f Some] "1.prems" k
      have "chunks_reachable (its, m\<lparr>curr := None\<rparr>) < k'" by simp
      from "1.IH"[OF refl f[symmetric] Some True this] f Some True k
      show ?thesis by (subst pop_rec.simps) simp
    next
      case False
      with f Some k show ?thesis by (subst pop_rec.simps) (simp split: prod.splits)
    qed
  qed
qed

lemma pop_rec_no_chunks:
  assumes "chunks_reachable st = 0"
  shows "fst (pop_rec dflt st) = (False, dflt)"
proof -
  obtain its m where st: "st = (its, m)" by (cases st)
  with assms have m: "curr m = None" "next' m = None"
    and its: "filter (\<lambda>c. c \<noteq> None) its = []"
    by (auto simp: chunks_reachable_def split: if_splits)
  show ?thesis
  proof (cases its)
    case Nil
    with st m show ?thesis by (subst pop_rec.simps) (simp add: fill_curr_Nil)
  next
    case (Cons p ps)
    with its have "p = None" by (auto split: if_splits)
    with Cons st m show ?thesis by (subst pop_rec.simps) (simp add: fill_curr_Cons)
  qed
qed

text \<open>
  Claim C9: every call of \<open>ChunkedFIFO::pop\<close> returns.  \<open>pop_rec\<close> is a total
  function: its termination proof is the argument of the claim, each recursive call
  follows the deletion of a chunk the worker could reach, and \<open>curr\<close> is refilled from
  \<open>Items\<close> or from \<open>next\<close> only.  The depth is bounded: limited to as many calls as
  there are reachable chunks plus one, \<open>pop\<close> still returns, with the same result.
  And where no chunk is reachable the result is \<open>ok = false\<close> with the default value.
\<close>

theorem pop_returns_within_chunks_plus_one:
  "pop_fuel (chunks_reachable (Items s, data s w) + 1) dflt (Items s, data s w)
     = Some (pop_rec dflt (Items s, data s w))
   \<and> (chunks_reachable (Items s, data s w) = 0
        \<longrightarrow> fst (ChunkedFIFO_pop dflt w s) = (False, dflt))"
proof -
  have a: "pop_fuel (chunks_reachable (Items s, data s w) + 1) dflt (Items s, data s w)
     = Some (pop_rec dflt (Items s, data s w))"
    by (rule pop_fuel_enough) simp
  have b: "chunks_reachable (Items s, data s w) = 0
        \<longrightarrow> fst (ChunkedFIFO_pop dflt w s) = (False, dflt)"
    by (simp add: ChunkedFIFO_pop_fst pop_rec_no_chunks)
  from a b show ?thesis by (rule conjI)
qed

theorem pop_returns_within_chunks_plus_one_witness:
  "chunks_reachable (Items (ChunkedFIFO_new :: int ChunkedFIFO),
                     data (ChunkedFIFO_new :: int ChunkedFIFO) 0) = 0
   \<and> fst (ChunkedFIFO_pop 0 0 (ChunkedFIFO_new :: int ChunkedFIFO)) = (False, 0)"
proof -
  have a: "chunks_reachable (Items (ChunkedFIFO_new :: int ChunkedFIFO),
                             data (ChunkedFIFO_new :: int ChunkedFIFO) 0) = 0"
    by (simp add: chunks_reachable_def ChunkedFIFO_new_def ProcRec_new_def)
  with pop_returns_within_chunks_plus_one[of "ChunkedFIFO_new :: int ChunkedFIFO" 0 0]
  show ?thesis by simp
qed

subsection \<open>ChunkedFIFO: fill_initial over an empty range\<close>

text \<open>
  Claim C10: on a worklist whose global chunk FIFO is empty, called by a worker whose
  \<open>next\<close> and \<open>curr\<close> are null (a new worklist is such), \<open>fill_initial\<close> over the
  empty range queues the null pointer; then \<open>empty()\<close> is false, and \<open>pop()\<close> by the
  same worker returns \<open>ok = false\<close> with the default value, takes the null pointer out
  of the queue and leaves the worklist as it was before \<open>fill_initial\<close>.
\<close>

theorem fill_initial_empty_range_queues_null:
  assumes "Items s = []" and "next' (data s w) = None" and "curr (data s w) = None"
  shows "Items (ChunkedFIFO_fill_initial P w [] s) = [None]
    \<and> \<not> ChunkedFIFO_empty w (ChunkedFIFO_fill_initial P w [] s)
    \<and> ChunkedFIFO_pop dflt w (ChunkedFIFO_fill_initial P w [] s) = ((False, dflt), s)"
proof -
  let ?t = "ChunkedFIFO_fill_initial P w [] s"
  have n: "(data s w)\<lparr>next' := None\<rparr> = data s w" using assms(2) by simp
  then have "(data s)(w := (data s w)\<lparr>next' := None\<rparr>) = data s" by simp
  then have t: "?t = \<lparr>Items = [None], data = data s\<rparr>"
    using assms(1,2) by (simp add: ChunkedFIFO_fill_initial_def FIFO_push_eq)
  have e: "\<not> ChunkedFIFO_empty w ?t"
    using assms
    by (simp add: t ChunkedFIFO_empty_def FIFO_empty_def STLAdaptor_empty_def stdqueueFix_def)
  have c: "(data s w)\<lparr>curr := None\<rparr> = data s w" using assms(3) by simp
  have "pop_rec dflt ([None], data s w) = ((False, dflt), ([], data s w))"
    using assms(3) c by (subst pop_rec.simps) (simp add: fill_curr_Cons)
  then have "ChunkedFIFO_pop dflt w ?t = ((False, dflt), \<lparr>Items = [], data = data s\<rparr>)"
    by (simp add: t ChunkedFIFO_pop_def)
  moreover have "\<lparr>Items = [], data = data s\<rparr> = s" using assms(1) by simp
  ultimately show ?thesis using t e by simp
qed

theorem fill_initial_empty_range_queues_null_witness:
  "Items (ChunkedFIFO_new :: int ChunkedFIFO) = []
   \<and> next' (data (ChunkedFIFO_new :: int ChunkedFIFO) 0) = None
   \<and> curr (data (ChunkedFIFO_new :: int ChunkedFIFO) 0) = None
   \<and> Items (ChunkedFIFO_fill_initial default_params 0 [] (ChunkedFIFO_new :: int ChunkedFIFO))
       = [None]
   \<and> \<not> ChunkedFIFO_empty 0
         (ChunkedFIFO_fill_initial default_params 0 [] (ChunkedFIFO_new :: int ChunkedFIFO))
   \<and> ChunkedFIFO_pop 0 0
         (ChunkedFIFO_fill_initial default_params 0 [] (ChunkedFIFO_new :: int ChunkedFIFO))
       = ((False, 0), ChunkedFIFO_new)"
proof -
  have a: "Items (ChunkedFIFO_new :: int ChunkedFIFO) = []"
    and b: "next' (data (ChunkedFIFO_new :: int ChunkedFIFO) 0) = None"
    and c: "curr (data (ChunkedFIFO_new :: int ChunkedFIFO) 0) = None"
    by (simp_all add: ChunkedFIFO_new_def ProcRec_new_def)
  from a b c fill_initial_empty_range_queues_null[OF a b c, of default_params 0]
  show ?thesis by simp
qed

subsection \<open>ChunkedFIFO: aborted, then pop\<close>









subsection \<open>OrderedByIntegerMetric: the priority scenario\<close>

lemmas OBIM_defs = OBIM_new_def OBIM_push_def OBIM_pop_def

text \<open>
  Claim C3: an OBIM constructed with \<open>range = 3\<close> and the indexer \<open>I(v) = v\<close>; one
  worker pushes 2, 0, 1 and pops three times: the pops return 0, then 1, then 2, each with
  \<open>ok = true\<close>.
\<close>

theorem OBIM_priority_scenario:
  "\<exists>s. OBIM_run (\<lambda>v sz. v) dflt [OPush w 2, OPush w 0, OPush w 1, OPop w, OPop w, OPop w]
          (OBIM_new 3)
        = Inr ([(True, 0), (True, 1), (True, 2)], s)"
  by (simp add: OBIM_defs STL_defs OBIM_pop_loop.simps)

subsection \<open>OrderedByIntegerMetric: the cursor\<close>

lemma OBIM_push_size: "OBIM_push I u val s = Inr s' \<Longrightarrow> OBIM_size s' = OBIM_size s"
  by (auto simp: OBIM_push_def Let_def split: if_splits)

lemma OBIM_pop_size: "OBIM_pop dflt u s = Inr (r, s') \<Longrightarrow> OBIM_size s' = OBIM_size s"
  by (auto simp: OBIM_pop_def Let_def split: if_splits prod.splits sum.splits)

lemma OBIM_push_cursor:
  "OBIM_push I u val s = Inr s' \<Longrightarrow> u = w \<longrightarrow> cursor s w \<le> I val (OBIM_size s)
     \<Longrightarrow> cursor s' w = cursor s w"
  by (auto simp: OBIM_push_def Let_def split: if_splits)

lemma OBIM_pop_cursor_other:
  "OBIM_pop dflt u s = Inr (r, s') \<Longrightarrow> u \<noteq> w \<Longrightarrow> cursor s' w = cursor s w"
  by (auto simp: OBIM_pop_def Let_def split: if_splits prod.splits sum.splits)

lemma OBIM_run_quiet:
  "\<forall>x\<in>set ops. quiet_op I w s x \<Longrightarrow> OBIM_run I dflt ops s = Inr (rs, s')
     \<Longrightarrow> cursor s' w = cursor s w \<and> OBIM_size s' = OBIM_size s"
proof (induction ops arbitrary: s rs)
  case Nil
  then show ?case by simp
next
  case (Cons x xs)
  show ?case
  proof (cases x)
    case (OPush u val)
    with Cons.prems(2) obtain s1 where p: "OBIM_push I u val s = Inr s1"
      and r: "OBIM_run I dflt xs s1 = Inr (rs, s')"
      by (auto split: sum.splits)
    from Cons.prems(1) OPush have q: "u = w \<longrightarrow> cursor s w \<le> I val (OBIM_size s)" by simp
    have c: "cursor s1 w = cursor s w" by (rule OBIM_push_cursor[OF p q])
    have z: "OBIM_size s1 = OBIM_size s" by (rule OBIM_push_size[OF p])
    have "\<forall>y\<in>set xs. quiet_op I w s1 y"
    proof
      fix y assume "y \<in> set xs"
      with Cons.prems(1) have "quiet_op I w s y" by simp
      with c z show "quiet_op I w s1 y" by (cases y) simp_all
    qed
    from Cons.IH[OF this r] c z show ?thesis by simp
  next
    case (OPop u)
    with Cons.prems(2) obtain r s1 rs' where p: "OBIM_pop dflt u s = Inr (r, s1)"
      and r: "OBIM_run I dflt xs s1 = Inr (rs', s')"
      by (auto split: sum.splits prod.splits)
    from Cons.prems(1) OPop have q: "u \<noteq> w" by simp
    have c: "cursor s1 w = cursor s w" by (rule OBIM_pop_cursor_other[OF p q])
    have z: "OBIM_size s1 = OBIM_size s" by (rule OBIM_pop_size[OF p])
    have "\<forall>y\<in>set xs. quiet_op I w s1 y"
    proof
      fix y assume "y \<in> set xs"
      with Cons.prems(1) have "quiet_op I w s y" by simp
      with c z show "quiet_op I w s1 y" by (cases y) simp_all
    qed
    from Cons.IH[OF this r] c z show ?thesis by simp
  qed
qed

text \<open>
  The bucket array is allocated with \<open>size\<close> elements by the constructor, and no call
  changes its length or \<open>size\<close>.
\<close>

lemma OBIM_new_length: "length (OBIM_data (OBIM_new r)) = unat (OBIM_size (OBIM_new r))"
  by (simp add: OBIM_new_def)

lemma OBIM_push_length:
  "OBIM_push I u val s = Inr s' \<Longrightarrow> length (OBIM_data s') = length (OBIM_data s)"
  by (auto simp: OBIM_push_def Let_def split: if_splits)

lemma OBIM_pop_loop_length:
  "OBIM_pop_loop dflt sz dat cur ret = Inr (r, dat', cur') \<Longrightarrow> length dat' = length dat"
proof (induction dflt sz dat cur ret rule: OBIM_pop_loop.induct)
  case (1 dflt sz dat cur ret)
  show ?case
  proof (cases "cur < sz \<and> \<not> fst ret")
    case False
    with "1.prems" show ?thesis by (subst (asm) OBIM_pop_loop.simps) auto
  next
    case True
    obtain ret' b where p: "FIFO_pop dflt (dat ! unat (cur + 1)) = (ret', b)"
      by (cases "FIFO_pop dflt (dat ! unat (cur + 1))")
    from "1.prems" True p have inb: "unat (cur + 1) < length dat"
      and r: "OBIM_pop_loop dflt sz (dat[unat (cur + 1) := b]) (cur + 1) ret' = Inr (r, dat', cur')"
      by (subst (asm) OBIM_pop_loop.simps, simp add: Let_def split: if_splits)+
    from "1.IH"[OF True refl inb p[symmetric] refl r] show ?thesis by simp
  qed
qed

lemma OBIM_pop_length:
  "OBIM_pop dflt u s = Inr (r, s') \<Longrightarrow> length (OBIM_data s') = length (OBIM_data s)"
  by (auto simp: OBIM_pop_def Let_def split: if_splits prod.splits sum.splits
      dest!: OBIM_pop_loop_length)

lemma OBIM_run_length:
  "OBIM_run I dflt ops s = Inr (rs, s') \<Longrightarrow>
   length (OBIM_data s') = length (OBIM_data s) \<and> OBIM_size s' = OBIM_size s"
proof (induction ops arbitrary: s rs)
  case Nil
  then show ?case by simp
next
  case (Cons x xs)
  show ?case
  proof (cases x)
    case (OPush u val)
    with Cons.prems obtain s1 where p: "OBIM_push I u val s = Inr s1"
      and r: "OBIM_run I dflt xs s1 = Inr (rs, s')"
      by (auto split: sum.splits)
    from Cons.IH[OF r] OBIM_push_length[OF p] OBIM_push_size[OF p] show ?thesis by simp
  next
    case (OPop u)
    with Cons.prems obtain r s1 rs' where p: "OBIM_pop dflt u s = Inr (r, s1)"
      and r: "OBIM_run I dflt xs s1 = Inr (rs', s')"
      by (auto split: sum.splits prod.splits)
    from Cons.IH[OF r] OBIM_pop_length[OF p] OBIM_pop_size[OF p] show ?thesis by simp
  qed
qed

lemma FIFO_pop_list: "FIFO_pop dflt xs = (if xs = [] then ((False, dflt), xs) else ((True, hd xs), tl xs))"
  by (simp add: STL_defs)

lemma OBIM_pop_loop_finds:
  assumes "length dat = unat sz" and "cur < j" and "j < sz" and "\<not> fst ret"
    and "dat ! unat j \<noteq> []" and "\<forall>k. unat cur < k \<and> k < unat j \<longrightarrow> dat ! k = []"
  shows "OBIM_pop_loop dflt sz dat cur ret
           = Inr ((True, hd (dat ! unat j)), dat[unat j := tl (dat ! unat j)], j)"
  using assms
proof (induction dflt sz dat cur ret rule: OBIM_pop_loop.induct)
  case (1 dflt sz dat cur ret)
  from "1.prems"(2,3) have lt: "cur < sz" by simp
  note S = word32_less_Suc[OF lt]
  from "1.prems"(2) have cj: "unat cur < unat j" by (simp add: word_less_nat_alt)
  from "1.prems"(3) have jz: "unat j < unat sz" by (simp add: word_less_nat_alt)
  from S cj jz "1.prems"(1) have inb: "unat (cur + 1) < length dat" by simp
  show ?case
  proof (cases "unat (cur + 1) = unat j")
    case True
    then have e: "cur + 1 = j" by (simp add: word_unat_eq_iff)
    have "OBIM_pop_loop dflt sz (dat[unat j := tl (dat ! unat j)]) j (True, hd (dat ! unat j))
            = Inr ((True, hd (dat ! unat j)), dat[unat j := tl (dat ! unat j)], j)"
      by (subst OBIM_pop_loop.simps) simp
    with lt "1.prems"(4,5) inb e show ?thesis
      by (subst OBIM_pop_loop.simps) (simp add: FIFO_pop_list Let_def)
  next
    case False
    with S cj have lt2: "unat (cur + 1) < unat j" by simp
    then have c2: "cur + 1 < j" by (simp add: word_less_nat_alt)
    from "1.prems"(6) S lt2 have em: "dat ! unat (cur + 1) = []" by simp
    then have pop: "FIFO_pop dflt (dat ! unat (cur + 1)) = ((False, dflt), [])"
      by (simp add: FIFO_pop_list)
    have same: "dat[unat (cur + 1) := []] = dat" using em by (metis list_update_id)
    have rest: "\<forall>k. unat (cur + 1) < k \<and> k < unat j \<longrightarrow> dat ! k = []"
      using "1.prems"(6) S by simp
    have c: "cur < sz \<and> \<not> fst ret" using lt "1.prems"(4) by simp
    have "OBIM_pop_loop dflt sz (dat[unat (cur + 1) := []]) (cur + 1) (False, dflt)
           = Inr ((True, hd (dat ! unat j)), dat[unat j := tl (dat ! unat j)], j)"
      using "1.IH"[OF c refl inb pop[symmetric] refl] "1.prems"(1,3,5) c2 rest same
      by simp
    with lt "1.prems"(4) inb pop show ?thesis
      by (subst OBIM_pop_loop.simps) (simp add: Let_def)
  qed
qed

lemma OBIM_pop_finds:
  assumes wf: "length (OBIM_data s) = unat (OBIM_size s)"
    and c: "c = (if cursor s w = OBIM_size s then 0 else cursor s w)"
    and cj: "c \<le> j" and jz: "j < OBIM_size s"
    and ne: "OBIM_data s ! unat j \<noteq> []"
    and em: "\<forall>k. unat c \<le> k \<and> k < unat j \<longrightarrow> OBIM_data s ! k = []"
  shows "OBIM_pop dflt w s
     = Inr ((True, hd (OBIM_data s ! unat j)),
            s\<lparr>OBIM_data := (OBIM_data s)[unat j := tl (OBIM_data s ! unat j)],
              cursor := (cursor s)(w := j)\<rparr>)"
proof -
  from cj have cj': "unat c \<le> unat j" by (simp add: word_le_nat_alt)
  from jz have jz': "unat j < unat (OBIM_size s)" by (simp add: word_less_nat_alt)
  from cj' jz' wf have inb: "unat c < length (OBIM_data s)" by simp
  let ?res = "Inr ((True, hd (OBIM_data s ! unat j)),
                   (OBIM_data s)[unat j := tl (OBIM_data s ! unat j)], j)"
  have loop: "(case FIFO_pop dflt (OBIM_data s ! unat c) of
                 (ret, b) \<Rightarrow> OBIM_pop_loop dflt (OBIM_size s) ((OBIM_data s)[unat c := b]) c ret)
              = ?res"
  proof (cases "c = j")
    case True
    with ne show ?thesis
      by (simp add: FIFO_pop_list) (subst OBIM_pop_loop.simps, simp)
  next
    case False
    with cj have lt: "c < j" by simp
    then have "unat c < unat j" by (simp add: word_less_nat_alt)
    with em have e: "OBIM_data s ! unat c = []" by simp
    then have same: "(OBIM_data s)[unat c := []] = OBIM_data s" by (metis list_update_id)
    have rest: "\<forall>k. unat c < k \<and> k < unat j \<longrightarrow> OBIM_data s ! k = []" using em by simp
    have "OBIM_pop_loop dflt (OBIM_size s) (OBIM_data s) c (False, dflt) = ?res"
      by (rule OBIM_pop_loop_finds[OF wf lt jz _ ne rest]) simp
    with e same show ?thesis by (simp add: FIFO_pop_list)
  qed
  have "OBIM_pop dflt w s =
      (case FIFO_pop dflt (OBIM_data s ! unat c) of
         (ret, b) \<Rightarrow>
           (case OBIM_pop_loop dflt (OBIM_size s) ((OBIM_data s)[unat c := b]) c ret of
              Inl e \<Rightarrow> Inl e
            | Inr (ret', dat, cur') \<Rightarrow>
                Inr (ret', s\<lparr>OBIM_data := dat, cursor := (cursor s)(w := cur')\<rparr>)))"
    unfolding OBIM_pop_def c[symmetric] using inb by (simp add: Let_def)
  also have "\<dots> = Inr ((True, hd (OBIM_data s ! unat j)),
            s\<lparr>OBIM_data := (OBIM_data s)[unat j := tl (OBIM_data s ! unat j)],
              cursor := (cursor s)(w := j)\<rparr>)"
    using loop by (cases "FIFO_pop dflt (OBIM_data s ! unat c)") simp
  finally show ?thesis .
qed

lemma OBIM_pop_wraps:
  assumes "cursor s w = OBIM_size s"
  shows "OBIM_pop dflt w s = OBIM_pop dflt w (s\<lparr>cursor := (cursor s)(w := 0)\<rparr>)"
  using assms by (simp add: OBIM_pop_def Let_def split: prod.splits sum.splits)

text \<open>
  A \<open>pop\<close> that stays inside the array has found an item: it returns \<open>ok = true\<close>
  and leaves the cursor below \<open>size\<close>.  So on a worklist built by the constructor no run
  of calls that stays inside the array returns \<open>ok = false\<close> from a \<open>pop\<close> or leaves a
  cursor at \<open>size = range + 1\<close>.
\<close>

lemma OBIM_pop_loop_Inr:
  "length dat = unat sz \<Longrightarrow> cur < sz
     \<Longrightarrow> OBIM_pop_loop dflt sz dat cur ret = Inr (r, dat', cur')
     \<Longrightarrow> fst r \<and> cur' < sz"
proof (induction dflt sz dat cur ret rule: OBIM_pop_loop.induct)
  case (1 dflt sz dat cur ret)
  show ?case
  proof (cases "cur < sz \<and> \<not> fst ret")
    case False
    with "1.prems" show ?thesis by (subst (asm) OBIM_pop_loop.simps) auto
  next
    case True
    obtain ret' b where p: "FIFO_pop dflt (dat ! unat (cur + 1)) = (ret', b)"
      by (cases "FIFO_pop dflt (dat ! unat (cur + 1))")
    from "1.prems"(3) True p have inb: "unat (cur + 1) < length dat"
      and r: "OBIM_pop_loop dflt sz (dat[unat (cur + 1) := b]) (cur + 1) ret' = Inr (r, dat', cur')"
      by (subst (asm) OBIM_pop_loop.simps, simp add: Let_def split: if_splits)+
    from inb "1.prems"(1) have lt: "cur + 1 < sz" by (simp add: word_less_nat_alt)
    have len: "length (dat[unat (cur + 1) := b]) = unat sz" using "1.prems"(1) by simp
    from "1.IH"[OF True refl inb p[symmetric] refl len lt r] show ?thesis .
  qed
qed

lemma OBIM_pop_Inr:
  assumes wf: "length (OBIM_data s) = unat (OBIM_size s)"
    and r: "OBIM_pop dflt w s = Inr (r, s')"
  shows "fst r \<and> cursor s' w < OBIM_size s'"
proof -
  let ?c = "if cursor s w = OBIM_size s then 0 else cursor s w"
  from r have inb: "unat ?c < length (OBIM_data s)"
    by (auto simp: OBIM_pop_def Let_def split: if_splits)
  with wf have lt: "?c < OBIM_size s" by (simp add: word_less_nat_alt)
  obtain ret b where p: "FIFO_pop dflt (OBIM_data s ! unat ?c) = (ret, b)"
    by (cases "FIFO_pop dflt (OBIM_data s ! unat ?c)")
  from r inb p obtain dat cur' where
    l: "OBIM_pop_loop dflt (OBIM_size s) ((OBIM_data s)[unat ?c := b]) ?c ret = Inr (r, dat, cur')"
    and s': "s' = s\<lparr>OBIM_data := dat, cursor := (cursor s)(w := cur')\<rparr>"
    unfolding OBIM_pop_def by (auto simp: Let_def split: if_splits sum.splits prod.splits)
  have len: "length ((OBIM_data s)[unat ?c := b]) = unat (OBIM_size s)" using wf by simp
  from OBIM_pop_loop_Inr[OF len lt l] s' show ?thesis by simp
qed

lemma OBIM_push_cursor_in_range:
  assumes "length (OBIM_data s) = unat (OBIM_size s)" and "\<forall>w. cursor s w < OBIM_size s"
    and "OBIM_push I u val s = Inr s'"
  shows "\<forall>w. cursor s' w < OBIM_size s'"
  using assms by (auto simp: OBIM_push_def Let_def word_less_nat_alt split: if_splits)

lemma OBIM_pop_cursor_in_range:
  assumes "length (OBIM_data s) = unat (OBIM_size s)" and "\<forall>w. cursor s w < OBIM_size s"
    and "OBIM_pop dflt u s = Inr (r, s')"
  shows "\<forall>w. cursor s' w < OBIM_size s'"
proof
  fix w
  show "cursor s' w < OBIM_size s'"
  proof (cases "w = u")
    case True
    with OBIM_pop_Inr[OF assms(1,3)] show ?thesis by simp
  next
    case False
    with OBIM_pop_cursor_other[OF assms(3), of w] OBIM_pop_size[OF assms(3)] assms(2)
    show ?thesis by simp
  qed
qed

lemma OBIM_run_in_range:
  "length (OBIM_data s) = unat (OBIM_size s) \<Longrightarrow> \<forall>w. cursor s w < OBIM_size s
     \<Longrightarrow> OBIM_run I dflt ops s = Inr (rs, s')
     \<Longrightarrow> (\<forall>w. cursor s' w < OBIM_size s') \<and> list_all fst rs"
proof (induction ops arbitrary: s rs)
  case Nil
  then show ?case by simp
next
  case (Cons x xs)
  show ?case
  proof (cases x)
    case (OPush u val)
    with Cons.prems(3) obtain s1 where p: "OBIM_push I u val s = Inr s1"
      and r: "OBIM_run I dflt xs s1 = Inr (rs, s')"
      by (auto split: sum.splits)
    have wf: "length (OBIM_data s1) = unat (OBIM_size s1)"
      using OBIM_push_length[OF p] OBIM_push_size[OF p] Cons.prems(1) by simp
    from Cons.IH[OF wf OBIM_push_cursor_in_range[OF Cons.prems(1,2) p] r] show ?thesis .
  next
    case (OPop u)
    with Cons.prems(3) obtain r s1 rs' where p: "OBIM_pop dflt u s = Inr (r, s1)"
      and r: "OBIM_run I dflt xs s1 = Inr (rs', s')" and rs: "rs = r # rs'"
      by (auto split: sum.splits prod.splits)
    have wf: "length (OBIM_data s1) = unat (OBIM_size s1)"
      using OBIM_pop_length[OF p] OBIM_pop_size[OF p] Cons.prems(1) by simp
    from Cons.IH[OF wf OBIM_pop_cursor_in_range[OF Cons.prems(1,2) p] r]
      OBIM_pop_Inr[OF Cons.prems(1) p] rs
    show ?thesis by simp
  qed
qed

text \<open>
  Claim C4: between two \<open>pop\<close> calls of a worker with no \<open>push\<close> below its cursor the
  cursor does not decrease; \<open>pop\<close> advances the cursor and returns the item of the first
  bucket that is not empty, and a cursor that reaches \<open>range + 1\<close> wraps to 0.  The
  first part holds (lemma \<open>OBIM_run_quiet\<close>), and the second where a bucket from the
  cursor on is not empty (lemma \<open>OBIM_pop_finds\<close>).  The code breaks the rest, by the
  defect of claim C8: the body of the \<open>while\<close> loop indexes \<open>data[cur]\<close> after
  \<open>++cur\<close> without testing \<open>cur < size\<close> again, so a \<open>pop\<close> that finds every bucket
  from its cursor on empty reads \<open>data[size]\<close> where it should stop with the cursor at
  \<open>range + 1\<close>, and the \<open>if (cur == size) cur = 0\<close> of the next \<open>pop\<close> is reached
  only through that read (lemmas \<open>OBIM_pop_Inr\<close>, \<open>OBIM_run_in_range\<close>).  On a new
  worklist of \<open>range = 3\<close> with \<open>I(v) = v\<close>: worker 0 pushes 2 and pops it, which
  leaves its cursor at 2; worker 1 pushes 0; worker 0 pops again: buckets 2 and 3 are
  empty, and the \<open>pop\<close> indexes \<open>data[4]\<close> while the item 0 waits in bucket 0.
\<close>

theorem OBIM_pop_runs_off_before_wrap:
  "OBIM_run (\<lambda>v sz. v) dflt [OPush 0 2, OPop 0, OPush 1 0] (OBIM_new 3)
     = Inr ([(True, 2)],
            \<lparr>OBIM_data = [[0], [], [], []], OBIM_size = 4, cursor = (\<lambda>w. 0)(0 := 2)\<rparr>)
   \<and> OBIM_run (\<lambda>v sz. v) dflt [OPush 0 2, OPop 0, OPush 1 0, OPop 0] (OBIM_new 3)
     = Inl (OutOfBounds 4)"
proof -
  have n: "OBIM_new 3 = \<lparr>OBIM_data = [[], [], [], []::32 word list], OBIM_size = 4,
                        cursor = (\<lambda>w. 0)\<rparr>"
  proof -
    have "replicate 4 [] = [[], [], [], []::32 word list]" by (simp add: eval_nat_numeral)
    then show ?thesis by (simp add: OBIM_new_def)
  qed
  show ?thesis
    unfolding n by (simp add: OBIM_push_def OBIM_pop_def STL_defs OBIM_pop_loop.simps)
qed

subsection \<open>OrderedByIntegerMetric: pop past the last bucket\<close>

lemma OBIM_pop_loop_runs_off:
  assumes "length dat = unat sz" and "cur < sz" and "\<not> fst ret"
    and "\<forall>k. unat cur < k \<and> k < unat sz \<longrightarrow> dat ! k = []"
  shows "OBIM_pop_loop dflt sz dat cur ret = Inl (OutOfBounds (unat sz))"
  using assms
proof (induction dflt sz dat cur ret rule: OBIM_pop_loop.induct)
  case (1 dflt sz dat cur ret)
  note S = word32_less_Suc[OF "1.prems"(2)]
  show ?case
  proof (cases "unat (cur + 1) < length dat")
    case False
    with S "1.prems"(1) have "unat (cur + 1) = unat sz" by simp
    with False "1.prems"(2,3) show ?thesis
      by (subst OBIM_pop_loop.simps) (simp add: Let_def)
  next
    case True
    with "1.prems"(1) have c2: "cur + 1 < sz" by (simp add: word_less_nat_alt)
    from "1.prems"(4) S True "1.prems"(1) have em: "dat ! unat (cur + 1) = []" by simp
    then have pop: "FIFO_pop dflt (dat ! unat (cur + 1)) = ((False, dflt), [])"
      by (simp add: FIFO_pop_list)
    have same: "dat[unat (cur + 1) := []] = dat" using em by (metis list_update_id)
    have rest: "\<forall>k. unat (cur + 1) < k \<and> k < unat sz \<longrightarrow> dat ! k = []"
      using "1.prems"(4) S by simp
    have c: "cur < sz \<and> \<not> fst ret" using "1.prems"(2,3) by simp
    have "OBIM_pop_loop dflt sz (dat[unat (cur + 1) := []]) (cur + 1) (False, dflt)
           = Inl (OutOfBounds (unat sz))"
      using "1.IH"[OF c refl True pop[symmetric] refl] "1.prems"(1) c2 rest same
      by simp
    with "1.prems"(2,3) True pop show ?thesis
      by (subst OBIM_pop_loop.simps) (simp add: Let_def)
  qed
qed

lemma OBIM_pop_all_empty:
  assumes wf: "length (OBIM_data s) = unat (OBIM_size s)"
    and c: "c = (if cursor s w = OBIM_size s then 0 else cursor s w)"
    and cz: "c < OBIM_size s"
    and em: "\<forall>k. unat c \<le> k \<and> k < unat (OBIM_size s) \<longrightarrow> OBIM_data s ! k = []"
  shows "OBIM_pop dflt w s = Inl (OutOfBounds (unat (OBIM_size s)))"
proof -
  from cz have cz': "unat c < unat (OBIM_size s)" by (simp add: word_less_nat_alt)
  with wf have inb: "unat c < length (OBIM_data s)" by simp
  from em cz' have e: "OBIM_data s ! unat c = []" by simp
  then have same: "(OBIM_data s)[unat c := []] = OBIM_data s" by (metis list_update_id)
  have rest: "\<forall>k. unat c < k \<and> k < unat (OBIM_size s) \<longrightarrow> OBIM_data s ! k = []"
    using em by simp
  have loop: "OBIM_pop_loop dflt (OBIM_size s) (OBIM_data s) c (False, dflt)
                = Inl (OutOfBounds (unat (OBIM_size s)))"
    by (rule OBIM_pop_loop_runs_off[OF wf cz _ rest]) simp
  have "OBIM_pop dflt w s =
      (case FIFO_pop dflt (OBIM_data s ! unat c) of
         (ret, b) \<Rightarrow>
           (case OBIM_pop_loop dflt (OBIM_size s) ((OBIM_data s)[unat c := b]) c ret of
              Inl e \<Rightarrow> Inl e
            | Inr (ret', dat, cur') \<Rightarrow>
                Inr (ret', s\<lparr>OBIM_data := dat, cursor := (cursor s)(w := cur')\<rparr>)))"
    unfolding OBIM_pop_def c[symmetric] using inb by (simp add: Let_def)
  also have "\<dots> = Inl (OutOfBounds (unat (OBIM_size s)))"
    using loop e same by (simp add: FIFO_pop_list)
  finally show ?thesis .
qed

text \<open>
  Claim C8: every \<open>data[i]\<close> in \<open>pop\<close> has \<open>i < range + 1\<close>.  The code breaks it.
  The loop \<open>while (cur < size && !ret.first) { ++cur; ret = data[cur].pop(); }\<close> tests
  \<open>cur < size\<close> before the increment and indexes after it: whenever every bucket from
  the cursor on is empty it reads \<open>data[size]\<close> (lemma \<open>OBIM_pop_all_empty\<close>).  On a
  new worklist of \<open>range = 0\<close>, whose array has the one bucket \<open>data[0]\<close>, the first
  \<open>pop\<close> indexes \<open>data[1]\<close>.
\<close>

theorem OBIM_pop_reads_past_last_bucket:
  "OBIM_pop dflt w (OBIM_new 0) = Inl (OutOfBounds 1)
   \<and> length (OBIM_data (OBIM_new 0 :: 'a OBIM)) = 1"
  by (simp add: OBIM_defs STL_defs OBIM_pop_loop.simps)

subsection \<open>The STL adaptors: pop\<close>

lemma STLAdaptor_pop_empty:
  "mq_empty mq wl \<Longrightarrow> STLAdaptor_pop mq dflt wl = ((False, dflt), wl)"
  by (simp add: STLAdaptor_pop_def)

lemma STLAdaptor_pop_nonempty:
  "\<not> mq_empty mq wl \<Longrightarrow> STLAdaptor_pop mq dflt wl = ((True, mq_top mq wl), mq_pop mq wl)"
  by (simp add: STLAdaptor_pop_def)

lemma pq_fold_mem: "foldl (\<lambda>m x. if cmp m x then x else m) a xs \<in> set (a # xs)"
  by (induction xs arbitrary: a) (auto split: if_splits)

lemma pq_top_mem: "q \<noteq> [] \<Longrightarrow> pq_top cmp q \<in> set q"
  using pq_fold_mem[of cmp "hd q" "tl q"] by (cases q) (simp_all add: pq_top_def)

text \<open>
  Claim C7: for each of \<open>LIFO\<close>, \<open>FIFO\<close> and \<open>PriQueue\<close>, \<open>pop()\<close> on an empty
  worklist returns \<open>ok = false\<close> with the default value and leaves the contents as they
  are; on a worklist that is not empty it returns \<open>ok = true\<close> with an item of the
  worklist, and the contents afterwards are the contents before less that one item.
\<close>

theorem STL_pop_sentinel_or_item:
  "(LIFO_empty wl \<longrightarrow> LIFO_pop dflt wl = ((False, dflt), wl))
   \<and> (\<not> LIFO_empty wl \<longrightarrow>
        (\<exists>v wl'. LIFO_pop dflt wl = ((True, v), wl') \<and> mset wl = add_mset v (mset wl')))
   \<and> (FIFO_empty wl \<longrightarrow> FIFO_pop dflt wl = ((False, dflt), wl))
   \<and> (\<not> FIFO_empty wl \<longrightarrow>
        (\<exists>v wl'. FIFO_pop dflt wl = ((True, v), wl') \<and> mset wl = add_mset v (mset wl')))
   \<and> (PriQueue_empty cmp wl \<longrightarrow> PriQueue_pop cmp dflt wl = ((False, dflt), wl))
   \<and> (\<not> PriQueue_empty cmp wl \<longrightarrow>
        (\<exists>v wl'. PriQueue_pop cmp dflt wl = ((True, v), wl') \<and> mset wl = add_mset v (mset wl')))"
proof -
  have l: "\<not> LIFO_empty wl \<longrightarrow>
        (\<exists>v wl'. LIFO_pop dflt wl = ((True, v), wl') \<and> mset wl = add_mset v (mset wl'))"
    by (cases wl) (simp_all add: LIFO_empty_eq LIFO_pop_Cons)
  have f: "\<not> FIFO_empty wl \<longrightarrow>
        (\<exists>v wl'. FIFO_pop dflt wl = ((True, v), wl') \<and> mset wl = add_mset v (mset wl'))"
    by (cases wl) (simp_all add: FIFO_empty_def STLAdaptor_empty_def stdqueueFix_def FIFO_pop_Cons)
  have p: "\<not> PriQueue_empty cmp wl \<longrightarrow>
        (\<exists>v wl'. PriQueue_pop cmp dflt wl = ((True, v), wl') \<and> mset wl = add_mset v (mset wl'))"
  proof
    assume "\<not> PriQueue_empty cmp wl"
    then have ne: "wl \<noteq> []"
      by (simp add: PriQueue_empty_def STLAdaptor_empty_def std_priority_queue_def)
    then have "PriQueue_pop cmp dflt wl = ((True, pq_top cmp wl), remove1 (pq_top cmp wl) wl)"
      by (simp add: PriQueue_pop_def STLAdaptor_pop_def std_priority_queue_def)
    moreover from pq_top_mem[OF ne, of cmp]
    have "mset wl = add_mset (pq_top cmp wl) (mset (remove1 (pq_top cmp wl) wl))"
      by simp
    ultimately show "\<exists>v wl'. PriQueue_pop cmp dflt wl = ((True, v), wl')
        \<and> mset wl = add_mset v (mset wl')" by blast
  qed
  have e: "LIFO_empty wl \<longrightarrow> LIFO_pop dflt wl = ((False, dflt), wl)"
    "FIFO_empty wl \<longrightarrow> FIFO_pop dflt wl = ((False, dflt), wl)"
    "PriQueue_empty cmp wl \<longrightarrow> PriQueue_pop cmp dflt wl = ((False, dflt), wl)"
    by (simp_all add: LIFO_empty_def LIFO_pop_def FIFO_empty_def FIFO_pop_def
        PriQueue_empty_def PriQueue_pop_def STLAdaptor_empty_def STLAdaptor_pop_empty)
  from e l f p show ?thesis by blast
qed

theorem STL_pop_sentinel_or_item_witness:
  "LIFO_empty ([]::int list) \<and> LIFO_pop 0 ([]::int list) = ((False, 0), [])
   \<and> FIFO_empty ([]::int list) \<and> FIFO_pop 0 ([]::int list) = ((False, 0), [])
   \<and> PriQueue_empty (<) ([]::int list) \<and> PriQueue_pop (<) 0 ([]::int list) = ((False, 0), [])
   \<and> \<not> LIFO_empty [3, 1, 2::int]
   \<and> (\<exists>v wl'. LIFO_pop 0 [3, 1, 2::int] = ((True, v), wl') \<and> mset [3, 1, 2::int] = add_mset v (mset wl'))
   \<and> \<not> FIFO_empty [3, 1, 2::int]
   \<and> (\<exists>v wl'. FIFO_pop 0 [3, 1, 2::int] = ((True, v), wl') \<and> mset [3, 1, 2::int] = add_mset v (mset wl'))
   \<and> \<not> PriQueue_empty (<) [1, 3, 2::int]
   \<and> (\<exists>v wl'. PriQueue_pop (<) 0 [1, 3, 2::int] = ((True, v), wl') \<and> mset [1, 3, 2::int] = add_mset v (mset wl'))"
proof -
  have a: "LIFO_empty ([]::int list)" "FIFO_empty ([]::int list)" "PriQueue_empty (<) ([]::int list)"
    by (simp_all add: STL_defs PriQueue_empty_def std_priority_queue_def)
  have b: "\<not> LIFO_empty [3, 1, 2::int]" "\<not> FIFO_empty [3, 1, 2::int]"
    "\<not> PriQueue_empty (<) [1, 3, 2::int]"
    by (simp_all add: STL_defs PriQueue_empty_def std_priority_queue_def)
  from a STL_pop_sentinel_or_item[of "[]::int list" 0 "(<)"] b STL_pop_sentinel_or_item[of "[3, 1, 2::int]" 0 "(<)"] STL_pop_sentinel_or_item[of "[1, 3, 2::int]" 0 "(<)"]
  show ?thesis by blast
qed

subsection \<open>CacheByIntegerMetric: push into a full cache\<close>

lemma mset_slot_update:
  assumes "k < length c"
  shows "add_mset (slot_data (c ! k)) (mset (map slot_data (c[k := e])))
         = add_mset (slot_data e) (mset (map slot_data c))"
proof -
  from assms have "slot_data (c ! k) \<in># mset (map slot_data c)" by simp
  moreover have "mset (map slot_data (c[k := e]))
      = add_mset (slot_data e) (mset (map slot_data c) - {#slot_data (c ! k)#})"
    using assms by (simp add: map_update mset_update)
  ultimately show ?thesis by simp
qed

lemma CBIM_push_loop_full:
  assumes "length c = unat sz"
    and "\<forall>j. unat i \<le> j \<and> j < length c \<longrightarrow> valid (c ! j)"
    and "valIndex = I val sz"
  shows "\<exists>c' v'. CBIM_push_loop I sz c i val valIndex = (c', Some v')
     \<and> length c' = length c
     \<and> I val sz \<le> I v' sz
     \<and> (\<forall>j < unat i. c' ! j = c ! j)
     \<and> (\<forall>j. unat i \<le> j \<and> j < length c \<longrightarrow> valid (c' ! j) \<and> I (slot_data (c' ! j)) sz \<le> I v' sz)
     \<and> mset (v' # map slot_data c') = mset (val # map slot_data c)"
  using assms
proof (induction I sz c i val valIndex rule: CBIM_push_loop.induct)
  case (1 I sz c i val valIndex)
  show ?case
  proof (cases "i < sz")
    case False
    then have "unat sz \<le> unat i" by (simp add: word_less_nat_alt)
    with False "1.prems"(1) show ?thesis by (subst CBIM_push_loop.simps) auto
  next
    case True
    note S = word32_less_Suc[OF True]
    from S "1.prems"(1) have k: "unat i < length c" by simp
    with "1.prems"(2) have v: "valid (c ! unat i)" by simp
    show ?thesis
    proof (cases "valIndex < I (slot_data (c ! unat i)) sz")
      case sw: True
      let ?tmp = "slot_data (c ! unat i)"
      let ?c1 = "c[unat i := (c ! unat i)\<lparr>slot_data := val\<rparr>]"
      have p1: "length ?c1 = unat sz" using "1.prems"(1) by simp
      have p2: "\<forall>j. unat (i + 1) \<le> j \<and> j < length ?c1 \<longrightarrow> valid (?c1 ! j)"
        using "1.prems"(2) S by simp
      from "1.IH"(1)[OF True v sw refl refl p1 p2 refl]
      obtain c' v' where r: "CBIM_push_loop I sz ?c1 (i + 1) ?tmp (I ?tmp sz) = (c', Some v')"
        and l: "length c' = length ?c1"
        and m: "I ?tmp sz \<le> I v' sz"
        and pre: "\<forall>j < unat (i + 1). c' ! j = ?c1 ! j"
        and post: "\<forall>j. unat (i + 1) \<le> j \<and> j < length ?c1 \<longrightarrow>
                     valid (c' ! j) \<and> I (slot_data (c' ! j)) sz \<le> I v' sz"
        and ms: "mset (v' # map slot_data c') = mset (?tmp # map slot_data ?c1)"
        by blast
      have e: "CBIM_push_loop I sz c i val valIndex = (c', Some v')"
        using True v sw r by (subst CBIM_push_loop.simps) (simp add: Let_def)
      have at: "c' ! unat i = (c ! unat i)\<lparr>slot_data := val\<rparr>"
        using pre S k by simp
      have lo: "\<forall>j < unat i. c' ! j = c ! j" using pre S by simp
      have vi: "I val sz \<le> I v' sz" using sw m "1.prems"(3) by simp
      have hi: "\<forall>j. unat i \<le> j \<and> j < length c \<longrightarrow>
                  valid (c' ! j) \<and> I (slot_data (c' ! j)) sz \<le> I v' sz"
      proof (intro allI impI)
        fix j assume j: "unat i \<le> j \<and> j < length c"
        show "valid (c' ! j) \<and> I (slot_data (c' ! j)) sz \<le> I v' sz"
        proof (cases "j = unat i")
          case True
          with at v vi show ?thesis by simp
        next
          case False
          with j S post show ?thesis by simp
        qed
      qed
      have "mset (v' # map slot_data c') = mset (val # map slot_data c)"
        using ms mset_slot_update[OF k, of "(c ! unat i)\<lparr>slot_data := val\<rparr>"] by simp
      with e l vi lo hi show ?thesis by simp
    next
      case ns: False
      have p2: "\<forall>j. unat (i + 1) \<le> j \<and> j < length c \<longrightarrow> valid (c ! j)"
        using "1.prems"(2) S by simp
      from "1.IH"(2)[OF True v ns "1.prems"(1) p2 "1.prems"(3)]
      obtain c' v' where r: "CBIM_push_loop I sz c (i + 1) val valIndex = (c', Some v')"
        and l: "length c' = length c"
        and m: "I val sz \<le> I v' sz"
        and pre: "\<forall>j < unat (i + 1). c' ! j = c ! j"
        and post: "\<forall>j. unat (i + 1) \<le> j \<and> j < length c \<longrightarrow>
                     valid (c' ! j) \<and> I (slot_data (c' ! j)) sz \<le> I v' sz"
        and ms: "mset (v' # map slot_data c') = mset (val # map slot_data c)"
        by blast
      have e: "CBIM_push_loop I sz c i val valIndex = (c', Some v')"
        using True v ns r by (subst CBIM_push_loop.simps) simp
      have at: "c' ! unat i = c ! unat i" using pre S by simp
      have lo: "\<forall>j < unat i. c' ! j = c ! j" using pre S by simp
      have hi: "\<forall>j. unat i \<le> j \<and> j < length c \<longrightarrow>
                  valid (c' ! j) \<and> I (slot_data (c' ! j)) sz \<le> I v' sz"
      proof (intro allI impI)
        fix j assume j: "unat i \<le> j \<and> j < length c"
        show "valid (c' ! j) \<and> I (slot_data (c' ! j)) sz \<le> I v' sz"
        proof (cases "j = unat i")
          case True
          with at v ns m "1.prems"(3) show ?thesis by simp
        next
          case False
          with j S post show ?thesis by simp
        qed
      qed
      from e l m lo hi ms show ?thesis by simp
    qed
  qed
qed

text \<open>
  Claim C5: when \<open>push(v)\<close> finds every slot of the caller's cache valid, exactly one
  item goes to the parent worklist; its metric is at least the metric of \<open>v\<close> and of
  every item in the cache after the push, all slots stay valid, and the items in the cache
  together with the forwarded one are the items that were in the cache together with \<open>v\<close>.
\<close>

theorem cache_push_evicts_worst:
  assumes "length (cache s w) = unat sz" and "\<forall>e\<in>set (cache s w). valid e"
  shows "\<exists>c' v'. CacheByIntegerMetric_push I sz P_push w val s
             = s\<lparr>cache := (cache s)(w := c'), CBIM_data := P_push v' (CBIM_data s)\<rparr>
      \<and> length c' = unat sz
      \<and> I val sz \<le> I v' sz
      \<and> (\<forall>e\<in>set c'. valid e \<and> I (slot_data e) sz \<le> I v' sz)
      \<and> mset (v' # map slot_data c') = mset (val # map slot_data (cache s w))"
proof -
  from assms(2) have "\<forall>j. unat (0::32 word) \<le> j \<and> j < length (cache s w) \<longrightarrow> valid (cache s w ! j)"
    by simp
  from CBIM_push_loop_full[OF assms(1) this refl, of I val]
  obtain c' v' where r: "CBIM_push_loop I sz (cache s w) 0 val (I val sz) = (c', Some v')"
    and l: "length c' = length (cache s w)"
    and m: "I val sz \<le> I v' sz"
    and post: "\<forall>j. unat (0::32 word) \<le> j \<and> j < length (cache s w) \<longrightarrow>
                 valid (c' ! j) \<and> I (slot_data (c' ! j)) sz \<le> I v' sz"
    and ms: "mset (v' # map slot_data c') = mset (val # map slot_data (cache s w))"
    by blast
  from r have "CacheByIntegerMetric_push I sz P_push w val s
             = s\<lparr>cache := (cache s)(w := c'), CBIM_data := P_push v' (CBIM_data s)\<rparr>"
    by (simp add: CacheByIntegerMetric_push_def)
  moreover from post l have "\<forall>e\<in>set c'. valid e \<and> I (slot_data e) sz \<le> I v' sz"
    by (auto simp: in_set_conv_nth)
  ultimately show ?thesis using l m ms assms(1) by auto
qed

theorem cache_push_evicts_worst_witness:
  "length [\<lparr>valid = True, slot_data = 5::32 word\<rparr>, \<lparr>valid = True, slot_data = 2\<rparr>] = unat (2::32 word)
   \<and> list_all valid [\<lparr>valid = True, slot_data = 5::32 word\<rparr>, \<lparr>valid = True, slot_data = 2\<rparr>]
   \<and> (\<exists>c' v'. CacheByIntegerMetric_push (\<lambda>v sz. v) 2 (\<lambda>v p. p @ [v]) 0 3
                 \<lparr>CBIM_data = [], cache = (\<lambda>w. [\<lparr>valid = True, slot_data = 5::32 word\<rparr>, \<lparr>valid = True, slot_data = 2\<rparr>])\<rparr>
             = \<lparr>CBIM_data = [v'], cache = (\<lambda>w. [\<lparr>valid = True, slot_data = 5::32 word\<rparr>, \<lparr>valid = True, slot_data = 2\<rparr>])(0 := c')\<rparr>
        \<and> (3::32 word) \<le> v'
        \<and> list_all (\<lambda>e. valid e \<and> slot_data e \<le> v') c')"
proof -
  let ?c = "[\<lparr>valid = True, slot_data = 5::32 word\<rparr>, \<lparr>valid = True, slot_data = 2\<rparr>]"
  let ?s = "\<lparr>CBIM_data = ([]::32 word list), cache = (\<lambda>w::nat. ?c)\<rparr>"
  have a: "length (cache ?s 0) = unat (2::32 word)" by simp
  have b: "\<forall>e\<in>set (cache ?s 0). valid e" by simp
  from cache_push_evicts_worst[OF a b, of "\<lambda>v sz. v" "\<lambda>v p. p @ [v]" 3]
  show ?thesis by (simp add: list_all_iff, blast)
qed

end
